theory Spec2Isabelle
  imports Main
begin

section \<open>Configuration constants\<close>

text \<open>
  The repository holds three variants of one health-check script: \<^verbatim>\<open>check_api.js\<close>
  (the report generator), a second report generator that also rewrites the README
  (called the README variant below; its definitions carry the suffix \<open>_readme\<close>) and a
  quality scanner built around \<^verbatim>\<open>testSource\<close> (suffix \<open>_scan\<close> where a name clashes).
  Strings are byte lists holding UTF-8, so the non-ASCII literals of the source are
  written byte by byte.
\<close>

definition MAX_DAYS :: nat where
  "MAX_DAYS = 30"


definition MAX_RETRY :: nat where
  "MAX_RETRY = 3"

definition MAX_RETRY_scan :: nat where
  "MAX_RETRY_scan = 2"

section \<open>Data model\<close>

text \<open>
  \<^verbatim>\<open>apiEntries\<close>: one entry per configured endpoint (\<open>detail\<close> is called \<open>id\<close> in the
  README variant). A \<open>result\<close> is the object a probe task returns; the README variant's
  objects have no \<open>name\<close> property, which is \<open>None\<close> here. A \<open>day\<close> is one element of
  \<open>history\<close>.
\<close>

record apiEntry =
  name :: string
  api :: string
  detail :: string
  disabled :: bool

record result =
  res_name :: "string option"
  res_api :: string
  success :: bool
  searchStatus :: string

record day =
  date :: string
  results :: "result list"


section \<open>History window\<close>

text \<open>
  \<^verbatim>\<open>history.push(d); if (history.length > MAX_DAYS) history = history.slice(-MAX_DAYS);\<close>
\<close>

definition append_history :: "'a list \<Rightarrow> 'a \<Rightarrow> 'a list" where
  "append_history history d =
     (let pushed = history @ [d]
      in if length pushed > MAX_DAYS then drop (length pushed - MAX_DAYS) pushed else pushed)"

text \<open>
  \<^verbatim>\<open>history.push(d); if (history.length > MAX_DAYS) history.shift();\<close>
\<close>

definition append_history_readme :: "'a list \<Rightarrow> 'a \<Rightarrow> 'a list" where
  "append_history_readme history d =
     (let pushed = history @ [d]
      in if length pushed > MAX_DAYS then tl pushed else pushed)"

section \<open>Streak\<close>

text \<open>\<^verbatim>\<open>day.results.find(x => x.api === api)\<close>\<close>

definition find_rec :: "day \<Rightarrow> string \<Rightarrow> result option" where
  "find_rec d a = find (\<lambda>x. res_api x = a) (results d)"

text \<open>
  The loop of \<^verbatim>\<open>check_api.js\<close>, counting down from \<open>history.length - 1\<close>; the third
  argument is \<open>i + 1\<close>, so \<open>history ! i\<close> is always in range, and \<open>cnt\<close> is the
  running value of the \<open>streak\<close> counter:
  \<^verbatim>\<open>if (!rec || rec.success) break; stats[api].streak++;\<close>
\<close>

fun streak_loop :: "day list \<Rightarrow> string \<Rightarrow> nat \<Rightarrow> nat \<Rightarrow> nat" where
  "streak_loop history a 0 cnt = cnt"
| "streak_loop history a (Suc i) cnt =
     (case find_rec (history ! i) a of
        None \<Rightarrow> cnt
      | Some rec \<Rightarrow> if success rec then cnt else streak_loop history a i (Suc cnt))"

definition streak :: "day list \<Rightarrow> string \<Rightarrow> nat" where
  "streak history a = streak_loop history a (length history) 0"

text \<open>
  The loop of the README variant:
  \<^verbatim>\<open>if (r && r.success) break; streak++;\<close>
\<close>

fun streak_loop_readme :: "day list \<Rightarrow> string \<Rightarrow> nat \<Rightarrow> nat \<Rightarrow> nat" where
  "streak_loop_readme history a 0 cnt = cnt"
| "streak_loop_readme history a (Suc i) cnt =
     (case find_rec (history ! i) a of
        None \<Rightarrow> streak_loop_readme history a i (Suc cnt)
      | Some r \<Rightarrow> if success r then cnt else streak_loop_readme history a i (Suc cnt))"

definition streak_readme :: "day list \<Rightarrow> string \<Rightarrow> nat" where
  "streak_readme history a = streak_loop_readme history a (length history) 0"

text \<open>
  The specification's reading of a record, used to state what the loops compute: the
  endpoint succeeded that day, failed that day, or has no outcome that day.
\<close>

definition succeeded :: "string \<Rightarrow> day \<Rightarrow> bool" where
  "succeeded a d = (case find_rec d a of None \<Rightarrow> False | Some r \<Rightarrow> success r)"

definition failed :: "string \<Rightarrow> day \<Rightarrow> bool" where
  "failed a d = (case find_rec d a of None \<Rightarrow> False | Some r \<Rightarrow> \<not> success r)"

definition missing :: "string \<Rightarrow> day \<Rightarrow> bool" where
  "missing a d = (find_rec d a = None)"

text \<open>
  The streak as the specification words it: the number of records, from the most recent
  one backwards, before the first record with a successful outcome.
\<close>

definition streak_spec :: "day list \<Rightarrow> string \<Rightarrow> nat" where
  "streak_spec history a =
     length (takeWhile (\<lambda>d. missing a d \<or> failed a d) (rev history))"

section \<open>Classification\<close>




section \<open>The network as a probe sees it\<close>

text \<open>
  A probe is the only place where the program suspends, and what it does next depends
  only on what its own calls to \<^verbatim>\<open>axios.get\<close> return. The environment of one probe is
  therefore a function \<open>net\<close>: \<open>net k url\<close> is the outcome of the probe's call number \<open>k\<close>
  (from 0), made to \<open>url\<close>. A call either throws (connection error, timeout, or a status
  that axios rejects) with a message, or returns a status and a parsed body. A probe
  threads the log of the URLs it has requested; the number of network attempts is the
  length of the log.

  Of a body the code reads whether it is falsy, whether it is an object, and its
  \<open>list\<close> property. \<open>Object None\<close> is an object whose \<open>list\<close> is absent or falsy;
  \<open>Object (Some l)\<close> has the array \<open>l\<close> as its list (a truthy \<open>list\<close> that is not an
  array of objects is outside this model). Of a list item the code reads \<open>vod_name\<close> and,
  in \<^verbatim>\<open>check_api.js\<close>, its JSON text.
\<close>

record item =
  vod_name :: "string option"
  item_json :: string

datatype body = Falsy | NonObject | Object "item list option"

datatype http_result = Threw string | Response nat body

type_synonym net = "nat \<Rightarrow> string \<Rightarrow> http_result"

text \<open>\<^verbatim>\<open>String.prototype.includes\<close>, on bytes.\<close>

definition starts_with :: "string \<Rightarrow> string \<Rightarrow> bool" where
  "starts_with s p = (take (length p) s = p)"

fun includes_str :: "string \<Rightarrow> string \<Rightarrow> bool" where
  "includes_str [] k = (k = [])"
| "includes_str (c # cs) k = (starts_with (c # cs) k \<or> includes_str cs k)"

text \<open>
  \<^verbatim>\<open>encodeURIComponent\<close>: every byte of the UTF-8 encoding that is not an unreserved
  character becomes \<open>%XX\<close>.
\<close>

definition unreserved :: "char \<Rightarrow> bool" where
  "unreserved c =
     (c \<in> set ''ABCDEFGHIJKLMNOPQRSTUVWXYZabcdefghijklmnopqrstuvwxyz0123456789-_.!~*()''
      \<or> c = CHR 0x27)"

definition hex_upper :: "nat \<Rightarrow> char" where
  "hex_upper n = ''0123456789ABCDEF'' ! (n mod 16)"

definition encode_byte :: "char \<Rightarrow> string" where
  "encode_byte c =
     (if unreserved c then [c]
      else [CHR ''%'', hex_upper (of_char c div 16), hex_upper (of_char c mod 16)])"

definition encodeURIComponent :: "string \<Rightarrow> string" where
  "encodeURIComponent s = concat (map encode_byte s)"

text \<open>Decimal digits of a number, for \<^verbatim>\<open>`HTTP_${ping.status}`\<close>.\<close>

fun show_nat :: "nat \<Rightarrow> string" where
  "show_nat n =
     (if n < 10 then [''0123456789'' ! n]
      else show_nat (n div 10) @ [''0123456789'' ! (n mod 10)])"

text \<open>The string literals of the source that are not ASCII, as UTF-8.\<close>

definition str_disabled :: string where
  "str_disabled = [CHR 0xE7, CHR 0xA6, CHR 0x81, CHR 0xE7, CHR 0x94, CHR 0xA8]"

definition str_cross :: string where
  "str_cross = [CHR 0xE2, CHR 0x9D, CHR 0x8C]"

definition str_check :: string where
  "str_check = [CHR 0xE2, CHR 0x9C, CHR 0x85]"

definition str_no_result :: string where
  "str_no_result =
     [CHR 0xE6, CHR 0x97, CHR 0xA0, CHR 0xE7, CHR 0xBB, CHR 0x93, CHR 0xE6, CHR 0x9E, CHR 0x9C]"

definition str_mismatch :: string where
  "str_mismatch =
     [CHR 0xE4, CHR 0xB8, CHR 0x8D, CHR 0xE5, CHR 0x8C, CHR 0xB9, CHR 0xE9, CHR 0x85, CHR 0x8D]"

definition str_bad_format :: string where
  "str_bad_format =
     [CHR 0xE8, CHR 0xBF, CHR 0x94, CHR 0xE5, CHR 0x9B, CHR 0x9E, CHR 0xE6, CHR 0xA0, CHR 0xBC,
      CHR 0xE5, CHR 0xBC, CHR 0x8F, CHR 0xE9, CHR 0x9D, CHR 0x9E, CHR 0xE6, CHR 0xB3, CHR 0x95]"

definition str_search_empty :: string where
  "str_search_empty =
     [CHR 0xE6, CHR 0x90, CHR 0x9C, CHR 0xE7, CHR 0xB4, CHR 0xA2, CHR 0xE6, CHR 0x97, CHR 0xA0,
      CHR 0xE7, CHR 0xBB, CHR 0x93, CHR 0xE6, CHR 0x9E, CHR 0x9C]"

definition str_polluted :: string where
  "str_polluted =
     [CHR 0xE6, CHR 0xA3, CHR 0x80, CHR 0xE6, CHR 0xB5, CHR 0x8B, CHR 0xE5, CHR 0x88, CHR 0xB0,
      CHR 0xE5, CHR 0xB9, CHR 0xBF, CHR 0xE5, CHR 0x91, CHR 0x8A, CHR 0xE6, CHR 0xB1, CHR 0xA1,
      CHR 0xE6, CHR 0x9F, CHR 0x93, CHR 0xE6, CHR 0xBA, CHR 0x90]"

definition str_normal :: string where
  "str_normal = [CHR 0xE6, CHR 0xAD, CHR 0xA3, CHR 0xE5, CHR 0xB8, CHR 0xB8]"

definition POLLUTED_KEYWORDS :: "string list" where
  "POLLUTED_KEYWORDS =
     [[CHR 0xE5, CHR 0xB9, CHR 0xBF, CHR 0xE5, CHR 0x91, CHR 0x8A],
      [CHR 0xE5, CHR 0x8D, CHR 0x9A, CHR 0xE5, CHR 0xBD, CHR 0xA9],
      [CHR 0xE6, CHR 0xB3, CHR 0xA8, CHR 0xE5, CHR 0x86, CHR 0x8C],
      [CHR 0xE8, CHR 0x81, CHR 0x94, CHR 0xE7, CHR 0xB3, CHR 0xBB, CHR 0x51],
      [CHR 0xE7, CHR 0xBB, CHR 0xB4, CHR 0xE6, CHR 0x8A, CHR 0xA4],
      [CHR 0xE5, CHR 0x8A, CHR 0xA0, CHR 0xE7, CHR 0xBE, CHR 0xA4]]"

definition ENABLE_SEARCH_TEST :: bool where
  "ENABLE_SEARCH_TEST = True"

section \<open>Probes of the report generators\<close>

text \<open>
  \<^verbatim>\<open>safeGet\<close> of \<^verbatim>\<open>check_api.js\<close>. The loop runs \<open>attempt\<close> from 1 to \<open>MAX_RETRY\<close>: a
  response ends it with \<open>status === 200\<close>, an exception retries (after a delay) or, on
  the last attempt, ends it with \<open>false\<close>. Leaving the loop without a return gives
  \<open>undefined\<close> in the source, which is falsy; no attempt reaches that exit when
  \<open>MAX_RETRY\<close> is at least 1.
\<close>

function safeGet_from :: "net \<Rightarrow> string \<Rightarrow> nat \<Rightarrow> string list \<Rightarrow> bool \<times> string list" where
  "safeGet_from net url attempt log =
     (if attempt \<le> MAX_RETRY then
        (case net (length log) url of
           Response st data \<Rightarrow> (st = 200, log @ [url])
         | Threw msg \<Rightarrow>
             if attempt < MAX_RETRY then safeGet_from net url (Suc attempt) (log @ [url])
             else (False, log @ [url]))
      else (False, log))"
  by pat_completeness auto
termination
  by (relation "measure (\<lambda>(net, url, attempt, log). Suc MAX_RETRY - attempt)") auto

definition safeGet :: "net \<Rightarrow> string \<Rightarrow> string list \<Rightarrow> bool \<times> string list" where
  "safeGet net url log = safeGet_from net url 1 log"

text \<open>\<^verbatim>\<open>JSON.stringify(list)\<close> of an array of items, from the JSON text of each item.\<close>

fun join_comma :: "string list \<Rightarrow> string" where
  "join_comma [] = []"
| "join_comma [x] = x"
| "join_comma (x # y # ys) = x @ '','' @ join_comma (y # ys)"

definition stringify_list :: "item list \<Rightarrow> string" where
  "stringify_list l = ''['' @ join_comma (map item_json l) @ '']''"

text \<open>
  \<^verbatim>\<open>testSearch\<close> of \<^verbatim>\<open>check_api.js\<close>:
  \<^verbatim>\<open>if (res.status !== 200 || !res.data || typeof res.data !== "object") return cross;\<close>
  \<^verbatim>\<open>const list = res.data.list || []; if (!list.length) return no_result;\<close>
  \<^verbatim>\<open>return JSON.stringify(list).includes(keyword) ? check : mismatch;\<close>
  As in \<^verbatim>\<open>safeGet\<close>, the exit of the loop without a return is never reached; the
  source would give \<open>undefined\<close> there.
\<close>

definition search_verdict :: "nat \<Rightarrow> body \<Rightarrow> string \<Rightarrow> string" where
  "search_verdict st data keyword =
     (if st \<noteq> 200 \<or> data = Falsy \<or> data = NonObject then str_cross
      else
        let l = (case data of Object (Some l) \<Rightarrow> l | _ \<Rightarrow> [])
        in if length l = 0 then str_no_result
           else if includes_str (stringify_list l) keyword then str_check
           else str_mismatch)"

function testSearch_from ::
  "net \<Rightarrow> string \<Rightarrow> string \<Rightarrow> nat \<Rightarrow> string list \<Rightarrow> string \<times> string list" where
  "testSearch_from net a keyword attempt log =
     (if attempt \<le> MAX_RETRY then
        let url = a @ ''?wd='' @ encodeURIComponent keyword
        in (case net (length log) url of
              Response st data \<Rightarrow> (search_verdict st data keyword, log @ [url])
            | Threw msg \<Rightarrow>
                if attempt < MAX_RETRY
                then testSearch_from net a keyword (Suc attempt) (log @ [url])
                else (str_cross, log @ [url]))
      else (''undefined'', log))"
  by pat_completeness auto
termination
  by (relation "measure (\<lambda>(net, a, keyword, attempt, log). Suc MAX_RETRY - attempt)") auto

definition testSearch :: "net \<Rightarrow> string \<Rightarrow> string \<Rightarrow> string list \<Rightarrow> string \<times> string list" where
  "testSearch net a keyword log = testSearch_from net a keyword 1 log"

text \<open>
  One element of \<^verbatim>\<open>tasks\<close> in \<^verbatim>\<open>check_api.js\<close>: the outcome and the log of the URLs
  requested.
  \<^verbatim>\<open>if (disabled) return { name, api, success: false, searchStatus: disabled_mark };\<close>
  \<^verbatim>\<open>const ok = await safeGet(api);\<close>
  \<^verbatim>\<open>const searchStatus = ENABLE_SEARCH_TEST ? await testSearch(api, SEARCH_KEYWORD) : "-";\<close>
\<close>

definition task :: "net \<Rightarrow> string \<Rightarrow> apiEntry \<Rightarrow> result \<times> string list" where
  "task net keyword e =
     (if disabled e
      then (\<lparr>res_name = Some (name e), res_api = api e, success = False,
             searchStatus = str_disabled\<rparr>, [])
      else
        let (ok, log1) = safeGet net (api e) [];
            (st, log2) = (if ENABLE_SEARCH_TEST then testSearch net (api e) keyword log1
                          else (''-'', log1))
        in (\<lparr>res_name = Some (name e), res_api = api e, success = ok, searchStatus = st\<rparr>,
            log2))"

text \<open>
  The README variant. Its \<^verbatim>\<open>safeGet\<close> and \<^verbatim>\<open>testSearch\<close> return \<open>false\<close> and the cross
  mark after the loop; its search verdict is
  \<^verbatim>\<open>if (res.status !== 200 || !res.data || !res.data.list) return cross;\<close>
  \<^verbatim>\<open>return res.data.list.length ? check : no_result;\<close>
  and its task runs the search only when the connectivity test succeeded.
\<close>

function safeGet_readme_from ::
  "net \<Rightarrow> string \<Rightarrow> nat \<Rightarrow> string list \<Rightarrow> bool \<times> string list" where
  "safeGet_readme_from net url i log =
     (if i \<le> MAX_RETRY then
        (case net (length log) url of
           Response st data \<Rightarrow> (st = 200, log @ [url])
         | Threw msg \<Rightarrow> safeGet_readme_from net url (Suc i) (log @ [url]))
      else (False, log))"
  by pat_completeness auto
termination
  by (relation "measure (\<lambda>(net, url, i, log). Suc MAX_RETRY - i)") auto

definition safeGet_readme :: "net \<Rightarrow> string \<Rightarrow> string list \<Rightarrow> bool \<times> string list" where
  "safeGet_readme net url log = safeGet_readme_from net url 1 log"

definition search_verdict_readme :: "nat \<Rightarrow> body \<Rightarrow> string" where
  "search_verdict_readme st data =
     (case data of
        Object (Some l) \<Rightarrow>
          if st \<noteq> 200 then str_cross
          else if length l \<noteq> 0 then str_check else str_no_result
      | _ \<Rightarrow> str_cross)"

function testSearch_readme_from ::
  "net \<Rightarrow> string \<Rightarrow> string \<Rightarrow> nat \<Rightarrow> string list \<Rightarrow> string \<times> string list" where
  "testSearch_readme_from net a keyword i log =
     (if i \<le> MAX_RETRY then
        let url = a @ ''?wd='' @ encodeURIComponent keyword
        in (case net (length log) url of
              Response st data \<Rightarrow> (search_verdict_readme st data, log @ [url])
            | Threw msg \<Rightarrow> testSearch_readme_from net a keyword (Suc i) (log @ [url]))
      else (str_cross, log))"
  by pat_completeness auto
termination
  by (relation "measure (\<lambda>(net, a, keyword, i, log). Suc MAX_RETRY - i)") auto

definition testSearch_readme ::
  "net \<Rightarrow> string \<Rightarrow> string \<Rightarrow> string list \<Rightarrow> string \<times> string list" where
  "testSearch_readme net a keyword log = testSearch_readme_from net a keyword 1 log"

definition task_readme :: "net \<Rightarrow> string \<Rightarrow> apiEntry \<Rightarrow> result \<times> string list" where
  "task_readme net keyword e =
     (if disabled e
      then (\<lparr>res_name = None, res_api = api e, success = False,
             searchStatus = str_disabled\<rparr>, [])
      else
        let (ok, log1) = safeGet_readme net (api e) [];
            (st, log2) = (if ok \<and> ENABLE_SEARCH_TEST
                          then testSearch_readme net (api e) keyword log1
                          else (''-'', log1))
        in (\<lparr>res_name = None, res_api = api e, success = ok, searchStatus = st\<rparr>, log2))"

section \<open>The probe of the quality scanner\<close>

text \<open>
  An element of \<^verbatim>\<open>configArray\<close>. \<open>enabled\<close> is \<open>False\<close> exactly when the configuration
  says \<^verbatim>\<open>"enabled": false\<close>, which is how every variant reads it
  (\<^verbatim>\<open>s.enabled === false\<close>, \<^verbatim>\<open>cleanItem.enabled !== false\<close>).
\<close>

record config =
  cfg_id :: string
  cfg_name :: string
  baseUrl :: string
  group :: string
  enabled :: bool

text \<open>
  \<^verbatim>\<open>apiEntries\<close>:
  \<^verbatim>\<open>{ name: s.name, api: s.baseUrl, detail: s.id || "-", disabled: s.enabled === false }\<close>
\<close>

definition apiEntry_of :: "config \<Rightarrow> apiEntry" where
  "apiEntry_of s =
     \<lparr>name = cfg_name s, api = baseUrl s,
      detail = (if cfg_id s = [] then ''-'' else cfg_id s),
      disabled = (enabled s = False)\<rparr>"

record scan_result =
  scan_success :: bool
  reason :: string

text \<open>\<^verbatim>\<open>POLLUTED_KEYWORDS.some(k => sampleName.includes(k))\<close>\<close>

definition polluted :: "string \<Rightarrow> bool" where
  "polluted sampleName = list_ex (\<lambda>k. includes_str sampleName k) POLLUTED_KEYWORDS"

text \<open>
  The three-way test on the search response; \<open>errorReason\<close> keeps its value when the
  first item is clean:
  \<^verbatim>\<open>if (!res.data || !res.data.list) errorReason = bad_format;\<close>
  \<^verbatim>\<open>else if (res.data.list.length === 0) errorReason = search_empty;\<close>
  \<^verbatim>\<open>else { const sampleName = res.data.list[0].vod_name || "";\<close>
  \<^verbatim>\<open>       if (POLLUTED_KEYWORDS.some(...)) errorReason = polluted; }\<close>
\<close>

definition inspect :: "body \<Rightarrow> string \<Rightarrow> string" where
  "inspect data errorReason =
     (case data of
        Object (Some l) \<Rightarrow>
          (case l of
             [] \<Rightarrow> str_search_empty
           | x # xs \<Rightarrow>
               let sampleName = (case vod_name x of None \<Rightarrow> [] | Some n \<Rightarrow> n)
               in if polluted sampleName then str_polluted else errorReason)
      | _ \<Rightarrow> str_bad_format)"

text \<open>
  The body of the \<^verbatim>\<open>try\<close> block of \<^verbatim>\<open>testSource\<close>, for one attempt: it returns a
  value, or it throws (an exception of \<^verbatim>\<open>axios.get\<close> or one of the two \<^verbatim>\<open>throw\<close>
  statements) with a message. \<open>errorReason\<close> is declared outside the loop, so the block
  starts with the message left by the attempt before it.
\<close>

datatype 'a tried = Returned 'a | Thrown string

definition try_source ::
  "net \<Rightarrow> string \<Rightarrow> config \<Rightarrow> string \<Rightarrow> string list \<Rightarrow> scan_result tried \<times> string list" where
  "try_source net keyword it errorReason log =
     (let url = baseUrl it
      in case net (length log) url of
           Threw msg \<Rightarrow> (Thrown msg, log @ [url])
         | Response st ping_data \<Rightarrow>
             if st \<noteq> 200 then (Thrown (''HTTP_'' @ show_nat st), log @ [url])
             else
               let searchUrl = url @ ''?ac=detail&wd='' @ encodeURIComponent keyword
               in case net (length (log @ [url])) searchUrl of
                    Threw msg \<Rightarrow> (Thrown msg, log @ [url, searchUrl])
                  | Response st2 data \<Rightarrow>
                      let errorReason' = inspect data errorReason
                      in if errorReason' \<noteq> [] then (Thrown errorReason', log @ [url, searchUrl])
                         else (Returned \<lparr>scan_success = True, reason = str_normal\<rparr>,
                               log @ [url, searchUrl]))"

text \<open>
  The loop of \<^verbatim>\<open>testSource\<close>: the \<^verbatim>\<open>catch\<close> stores the message in \<open>errorReason\<close> and
  (after a delay, unless this was the last attempt) the loop goes on; after the loop
  the function returns \<^verbatim>\<open>{ success: false, reason: errorReason }\<close>.
\<close>

function testSource_from ::
  "net \<Rightarrow> string \<Rightarrow> config \<Rightarrow> nat \<Rightarrow> string \<Rightarrow> string list \<Rightarrow> scan_result \<times> string list"
  where
  "testSource_from net keyword it attempt errorReason log =
     (if attempt \<le> MAX_RETRY_scan then
        (case try_source net keyword it errorReason log of
           (Returned r, log') \<Rightarrow> (r, log')
         | (Thrown msg, log') \<Rightarrow> testSource_from net keyword it (Suc attempt) msg log')
      else (\<lparr>scan_success = False, reason = errorReason\<rparr>, log))"
  by pat_completeness auto
termination
  by (relation "measure (\<lambda>(net, keyword, it, attempt, errorReason, log).
        Suc MAX_RETRY_scan - attempt)") auto

definition testSource :: "net \<Rightarrow> string \<Rightarrow> config \<Rightarrow> scan_result \<times> string list" where
  "testSource net keyword it = testSource_from net keyword it 1 [] []"

text \<open>
  The state of the loop of \<^verbatim>\<open>testSource\<close> after \<open>n\<close> attempts that all failed: the
  value of \<open>errorReason\<close> and the log of the calls made; \<open>None\<close> when one of these
  attempts returned.
\<close>

fun after_failures ::
  "net \<Rightarrow> string \<Rightarrow> config \<Rightarrow> nat \<Rightarrow> (string \<times> string list) option" where
  "after_failures net keyword it 0 = Some ([], [])"
| "after_failures net keyword it (Suc n) =
     (case after_failures net keyword it n of
        None \<Rightarrow> None
      | Some (errorReason, log) \<Rightarrow>
          (case try_source net keyword it errorReason log of
             (Returned r, log') \<Rightarrow> None
           | (Thrown msg, log') \<Rightarrow> Some (msg, log')))"

declare safeGet_from.simps [simp del] testSearch_from.simps [simp del]
  safeGet_readme_from.simps [simp del] testSearch_readme_from.simps [simp del]
  testSource_from.simps [simp del]

text \<open>An environment in which every network call throws.\<close>

definition all_throw :: "net \<Rightarrow> bool" where
  "all_throw net = (\<forall>k u. \<exists>m. net k u = Threw m)"

section \<open>One run of the report generator\<close>

text \<open>
  The counters of \<^verbatim>\<open>check_api.js\<close>:
  \<^verbatim>\<open>history.forEach(day => { const rec = day.results.find(x => x.api === api);\<close>
  \<^verbatim>\<open>  if (rec) rec.success ? stats[api].ok++ : stats[api].fail++; });\<close>
\<close>

fun count_day :: "string \<Rightarrow> day \<Rightarrow> nat \<times> nat \<Rightarrow> nat \<times> nat" where
  "count_day a d (okc, failc) =
     (case find_rec d a of
        None \<Rightarrow> (okc, failc)
      | Some rec \<Rightarrow> if success rec then (Suc okc, failc) else (okc, Suc failc))"

definition ok_fail :: "day list \<Rightarrow> string \<Rightarrow> nat \<times> nat" where
  "ok_fail history a = fold (count_day a) history (0, 0)"

text \<open>
  \<^verbatim>\<open>todayResults = await queueRun(tasks, CONCURRENT_LIMIT)\<close>: the outcome of task \<open>i\<close> at
  position \<open>i\<close> (see \<open>queueRun\<close> below), where \<open>nets i\<close> is the network as task \<open>i\<close>
  sees it during this run. Then
  \<^verbatim>\<open>history.push({ date: ..., results: todayResults })\<close> and the pruning.
\<close>

definition todayResults :: "(nat \<Rightarrow> net) \<Rightarrow> string \<Rightarrow> apiEntry list \<Rightarrow> result list" where
  "todayResults nets keyword apiEntries =
     map (\<lambda>(i, e). fst (task (nets i) keyword e)) (enumerate 0 apiEntries)"

definition run_history ::
  "(nat \<Rightarrow> net) \<Rightarrow> string \<Rightarrow> string \<Rightarrow> apiEntry list \<Rightarrow> day list \<Rightarrow> day list" where
  "run_history nets keyword today apiEntries history =
     append_history history \<lparr>date = today, results = todayResults nets keyword apiEntries\<rparr>"

section \<open>The scheduler\<close>


























section \<open>JSON text\<close>

text \<open>
  \<^verbatim>\<open>JSON.parse\<close> and \<^verbatim>\<open>JSON.stringify\<close> belong to the platform; the program relies on
  them to persist \<open>history\<close>, so they are modelled here from the JSON grammar. A value
  keeps the members of an object in the order of the text. A number is kept as its
  literal: no claim below computes with numbers. A string is a byte list holding UTF-8
  (an escaped lone surrogate, which has no UTF-8 form, is kept in the generalised
  three-byte form and lies outside what the byte model renders faithfully).
\<close>

datatype json =
  JNull
| JBool bool
| JNum string
| JStr string
| JArr "json list"
| JObj "(string \<times> json) list"

definition is_ws :: "char \<Rightarrow> bool" where
  "is_ws c = (c = CHR 0x20 \<or> c = CHR 0x09 \<or> c = CHR 0x0A \<or> c = CHR 0x0D)"

definition skip_ws :: "string \<Rightarrow> string" where
  "skip_ws s = dropWhile is_ws s"

definition is_digit :: "char \<Rightarrow> bool" where
  "is_digit c = (c \<in> set ''0123456789'')"

text \<open>
  A number literal: \<open>-? (0 | [1-9][0-9]*) (. [0-9]+)? ([eE] [+-]? [0-9]+)?\<close>. Each part
  returns what it read and the rest of the text.
\<close>

definition lex_sign :: "string \<Rightarrow> string \<times> string" where
  "lex_sign s = (case s of c # cs \<Rightarrow> if c = CHR ''-'' then ([c], cs) else ([], s) | [] \<Rightarrow> ([], s))"

definition lex_int :: "string \<Rightarrow> (string \<times> string) option" where
  "lex_int s =
     (case s of
        [] \<Rightarrow> None
      | c # cs \<Rightarrow>
          if c = CHR ''0'' then Some ([c], cs)
          else if is_digit c then Some (c # takeWhile is_digit cs, dropWhile is_digit cs)
          else None)"

definition lex_frac :: "string \<Rightarrow> (string \<times> string) option" where
  "lex_frac s =
     (case s of
        [] \<Rightarrow> Some ([], s)
      | c # cs \<Rightarrow>
          if c = CHR ''.''
          then (if takeWhile is_digit cs = [] then None
                else Some (c # takeWhile is_digit cs, dropWhile is_digit cs))
          else Some ([], s))"

definition lex_exp :: "string \<Rightarrow> (string \<times> string) option" where
  "lex_exp s =
     (case s of
        [] \<Rightarrow> Some ([], s)
      | c # cs \<Rightarrow>
          if c = CHR ''e'' \<or> c = CHR ''E''
          then
            (let (sg, r) = (case cs of
                              d # ds \<Rightarrow> if d = CHR ''+'' \<or> d = CHR ''-'' then ([d], ds)
                                        else ([], cs)
                            | [] \<Rightarrow> ([], cs))
             in if takeWhile is_digit r = [] then None
                else Some (c # sg @ takeWhile is_digit r, dropWhile is_digit r))
          else Some ([], s))"

definition lex_number :: "string \<Rightarrow> (string \<times> string) option" where
  "lex_number s =
     (let (sg, s1) = lex_sign s
      in case lex_int s1 of
           None \<Rightarrow> None
         | Some (ip, s2) \<Rightarrow>
             (case lex_frac s2 of
                None \<Rightarrow> None
              | Some (fp, s3) \<Rightarrow>
                  (case lex_exp s3 of
                     None \<Rightarrow> None
                   | Some (ep, s4) \<Rightarrow> Some (sg @ ip @ fp @ ep, s4))))"

text \<open>
  A string literal, after its opening quote. The first pass reads the characters up to
  the closing quote: a raw byte, a short escape, or a \<open>\\uXXXX\<close> escape, which is a
  UTF-16 code unit. A raw control character is a syntax error.
\<close>

datatype unit16 = Raw char | Esc nat

definition hex_val :: "char \<Rightarrow> nat option" where
  "hex_val c =
     (let n = (of_char c :: nat)
      in if 48 \<le> n \<and> n \<le> 57 then Some (n - 48)
         else if 97 \<le> n \<and> n \<le> 102 then Some (n - 87)
         else if 65 \<le> n \<and> n \<le> 70 then Some (n - 55)
         else None)"

definition hex4 :: "string \<Rightarrow> nat option" where
  "hex4 xs =
     (case map hex_val xs of
        [Some a, Some b, Some c, Some d] \<Rightarrow> Some (((a * 16 + b) * 16 + c) * 16 + d)
      | _ \<Rightarrow> None)"

definition simple_escape :: "char \<Rightarrow> char option" where
  "simple_escape e =
     (if e = CHR 0x22 then Some (CHR 0x22)
      else if e = CHR 0x5C then Some (CHR 0x5C)
      else if e = CHR ''/'' then Some (CHR ''/'')
      else if e = CHR ''b'' then Some (CHR 0x08)
      else if e = CHR ''f'' then Some (CHR 0x0C)
      else if e = CHR ''n'' then Some (CHR 0x0A)
      else if e = CHR ''r'' then Some (CHR 0x0D)
      else if e = CHR ''t'' then Some (CHR 0x09)
      else None)"

definition cons_unit :: "unit16 \<Rightarrow> (unit16 list \<times> string) option \<Rightarrow> (unit16 list \<times> string) option"
  where
  "cons_unit u r = (case r of None \<Rightarrow> None | Some (us, rest) \<Rightarrow> Some (u # us, rest))"

function str_items :: "string \<Rightarrow> (unit16 list \<times> string) option" where
  "str_items [] = None"
| "str_items (c # cs) =
     (if c = CHR 0x22 then Some ([], cs)
      else if c = CHR 0x5C then
        (case cs of
           [] \<Rightarrow> None
         | e # r \<Rightarrow>
             if e = CHR ''u'' then
               (case hex4 (take 4 r) of
                  None \<Rightarrow> None
                | Some u \<Rightarrow> cons_unit (Esc u) (str_items (drop 4 r)))
             else
               (case simple_escape e of
                  None \<Rightarrow> None
                | Some ch \<Rightarrow> cons_unit (Raw ch) (str_items r)))
      else if (of_char c :: nat) < 32 then None
      else cons_unit (Raw c) (str_items cs))"
  by pat_completeness auto
termination
  by (relation "measure length") auto

text \<open>
  The second pass turns code units into UTF-8: an escaped high surrogate followed by an
  escaped low surrogate is one code point.
\<close>

definition utf8 :: "nat \<Rightarrow> string" where
  "utf8 cp =
     (if cp < 128 then [char_of cp]
      else if cp < 2048 then [char_of (192 + cp div 64), char_of (128 + cp mod 64)]
      else if cp < 65536 then
        [char_of (224 + cp div 4096), char_of (128 + cp div 64 mod 64), char_of (128 + cp mod 64)]
      else
        [char_of (240 + cp div 262144), char_of (128 + cp div 4096 mod 64),
         char_of (128 + cp div 64 mod 64), char_of (128 + cp mod 64)])"

fun decode_units :: "unit16 list \<Rightarrow> string" where
  "decode_units [] = []"
| "decode_units (Raw c # us) = c # decode_units us"
| "decode_units (Esc hi # Esc lo # us) =
     (if 55296 \<le> hi \<and> hi < 56320 \<and> 56320 \<le> lo \<and> lo < 57344
      then utf8 (65536 + (hi - 55296) * 1024 + (lo - 56320)) @ decode_units us
      else utf8 hi @ decode_units (Esc lo # us))"
| "decode_units (Esc u # us) = utf8 u @ decode_units us"

definition string_lit :: "string \<Rightarrow> (string \<times> string) option" where
  "string_lit s =
     (case str_items s of None \<Rightarrow> None | Some (us, rest) \<Rightarrow> Some (decode_units us, rest))"

text \<open>
  A value that is not an array or an object, from its first character \<open>c\<close> on.
\<close>

definition parse_atom :: "string \<Rightarrow> (json \<times> string) option" where
  "parse_atom s =
     (case s of
        [] \<Rightarrow> None
      | c # cs \<Rightarrow>
          if c = CHR 0x22 then
            (case string_lit cs of None \<Rightarrow> None | Some (str, r) \<Rightarrow> Some (JStr str, r))
          else if starts_with s ''null'' then Some (JNull, drop 4 s)
          else if starts_with s ''true'' then Some (JBool True, drop 4 s)
          else if starts_with s ''false'' then Some (JBool False, drop 5 s)
          else (case lex_number s of None \<Rightarrow> None | Some (l, r) \<Rightarrow> Some (JNum l, r)))"

text \<open>
  The recursive descent. \<open>parse_elems\<close> reads \<open>value (, value)* ]\<close> and \<open>parse_members\<close>
  reads \<open>string : value (, string : value)* }\<close>. A recursive call on the rest of the
  text is guarded by the rest being shorter, which it always is; the guard is what the
  termination proof rests on.
\<close>

function parse_value :: "string \<Rightarrow> (json \<times> string) option"
  and parse_elems :: "string \<Rightarrow> (json list \<times> string) option"
  and parse_members :: "string \<Rightarrow> ((string \<times> json) list \<times> string) option"
  where
  "parse_value s =
     (case skip_ws s of
        [] \<Rightarrow> None
      | c # cs \<Rightarrow>
          if c = CHR ''['' then
            (case skip_ws cs of
               [] \<Rightarrow> None
             | d # ds \<Rightarrow>
                 if d = CHR '']'' then Some (JArr [], ds)
                 else (case parse_elems cs of
                         None \<Rightarrow> None
                       | Some (vs, r) \<Rightarrow> Some (JArr vs, r)))
          else if c = CHR ''{'' then
            (case skip_ws cs of
               [] \<Rightarrow> None
             | d # ds \<Rightarrow>
                 if d = CHR ''}'' then Some (JObj [], ds)
                 else (case parse_members cs of
                         None \<Rightarrow> None
                       | Some (ms, r) \<Rightarrow> Some (JObj ms, r)))
          else parse_atom (c # cs))"
| "parse_elems s =
     (case parse_value s of
        None \<Rightarrow> None
      | Some (v, r) \<Rightarrow>
          (case skip_ws r of
             [] \<Rightarrow> None
           | d # ds \<Rightarrow>
               if d = CHR '','' then
                 (if length ds < length s then
                    (case parse_elems ds of
                       None \<Rightarrow> None
                     | Some (vs, r') \<Rightarrow> Some (v # vs, r'))
                  else None)
               else if d = CHR '']'' then Some ([v], ds)
               else None))"
| "parse_members s =
     (case skip_ws s of
        [] \<Rightarrow> None
      | q # cs \<Rightarrow>
          if q = CHR 0x22 then
            (case string_lit cs of
               None \<Rightarrow> None
             | Some (k, r) \<Rightarrow>
                 (case skip_ws r of
                    [] \<Rightarrow> None
                  | col # r1 \<Rightarrow>
                      if col = CHR '':'' \<and> length r1 < length s then
                        (case parse_value r1 of
                           None \<Rightarrow> None
                         | Some (v, r2) \<Rightarrow>
                             (case skip_ws r2 of
                                [] \<Rightarrow> None
                              | d # ds \<Rightarrow>
                                  if d = CHR '','' then
                                    (if length ds < length s then
                                       (case parse_members ds of
                                          None \<Rightarrow> None
                                        | Some (ms, r') \<Rightarrow> Some ((k, v) # ms, r'))
                                     else None)
                                  else if d = CHR ''}'' then Some ([(k, v)], ds)
                                  else None))
                      else None))
          else None)"
  by pat_completeness auto
termination
proof -
  have shorter: "length cs < length s" if "skip_ws s = c # cs" for s c cs
    using that length_dropWhile_le [of is_ws s] by (simp add: skip_ws_def)
  show ?thesis
    by (relation "measure (\<lambda>x. case x of
          Inl s \<Rightarrow> 2 * length s
        | Inr (Inl s) \<Rightarrow> 2 * length s + 1
        | Inr (Inr s) \<Rightarrow> 2 * length s + 1)")
       (auto dest: shorter)
qed

declare parse_value.simps [simp del] parse_elems.simps [simp del] parse_members.simps [simp del]
  str_items.simps(2) [simp del]

text \<open>\<^verbatim>\<open>JSON.parse(text)\<close>: one value, then nothing but white space; \<open>None\<close> is a SyntaxError.\<close>

definition JSON_parse :: "string \<Rightarrow> json option" where
  "JSON_parse s =
     (case parse_value s of
        None \<Rightarrow> None
      | Some (v, r) \<Rightarrow> if skip_ws r = [] then Some v else None)"

text \<open>
  \<^verbatim>\<open>JSON.stringify(value, null, 2)\<close>. A string is quoted with the short escapes and
  \<open>\\u00xx\<close> for the other control characters. An empty array or object is \<open>[]\<close> or
  \<open>{}\<close>; otherwise each element or member stands on a line of its own, indented by two
  more spaces than its parent, and a member is \<open>"key": value\<close>.
\<close>

definition hex_lower :: "nat \<Rightarrow> char" where
  "hex_lower n = ''0123456789abcdef'' ! (n mod 16)"

definition escape_char :: "char \<Rightarrow> string" where
  "escape_char c =
     (if c = CHR 0x22 then [CHR 0x5C, CHR 0x22]
      else if c = CHR 0x5C then [CHR 0x5C, CHR 0x5C]
      else if c = CHR 0x08 then [CHR 0x5C, CHR ''b'']
      else if c = CHR 0x0C then [CHR 0x5C, CHR ''f'']
      else if c = CHR 0x0A then [CHR 0x5C, CHR ''n'']
      else if c = CHR 0x0D then [CHR 0x5C, CHR ''r'']
      else if c = CHR 0x09 then [CHR 0x5C, CHR ''t'']
      else if (of_char c :: nat) < 32 then
        [CHR 0x5C, CHR ''u'', CHR ''0'', CHR ''0'',
         hex_lower (of_char c div 16), hex_lower (of_char c mod 16)]
      else [c])"

definition quote :: "string \<Rightarrow> string" where
  "quote s = CHR 0x22 # concat (map escape_char s) @ [CHR 0x22]"

definition newline_indent :: "nat \<Rightarrow> string" where
  "newline_indent ind = CHR 0x0A # replicate ind (CHR 0x20)"

fun join_lines :: "nat \<Rightarrow> string list \<Rightarrow> string" where
  "join_lines ind [] = []"
| "join_lines ind [x] = x"
| "join_lines ind (x # y # ys) = x @ '','' @ newline_indent ind @ join_lines ind (y # ys)"

fun stringify :: "nat \<Rightarrow> json \<Rightarrow> string" where
  "stringify ind JNull = ''null''"
| "stringify ind (JBool b) = (if b then ''true'' else ''false'')"
| "stringify ind (JNum l) = l"
| "stringify ind (JStr s) = quote s"
| "stringify ind (JArr vs) =
     (if vs = [] then ''[]''
      else ''['' @ newline_indent (ind + 2)
           @ join_lines (ind + 2) (map (stringify (ind + 2)) vs)
           @ newline_indent ind @ '']'')"
| "stringify ind (JObj ms) =
     (if ms = [] then ''{}''
      else ''{'' @ newline_indent (ind + 2)
           @ join_lines (ind + 2)
               (map (\<lambda>(k, v). quote k @ '': '' @ stringify (ind + 2) v) ms)
           @ newline_indent ind @ ''}'')"

text \<open>
  The objects of \<open>history\<close> as JSON values, with the properties in the order in which
  the program creates them. A property that is \<open>undefined\<close> is left out by
  \<^verbatim>\<open>JSON.stringify\<close>.
\<close>

definition json_of_result :: "result \<Rightarrow> json" where
  "json_of_result r =
     JObj ((case res_name r of None \<Rightarrow> [] | Some n \<Rightarrow> [(''name'', JStr n)])
           @ [(''api'', JStr (res_api r)), (''success'', JBool (success r)),
              (''searchStatus'', JStr (searchStatus r))])"

definition json_of_day :: "day \<Rightarrow> json" where
  "json_of_day d =
     JObj [(''date'', JStr (date d)), (''results'', JArr (map json_of_result (results d)))]"

definition json_of_history :: "day list \<Rightarrow> json" where
  "json_of_history h = JArr (map json_of_day h)"

section \<open>The persisted report\<close>

text \<open>
  The history block of the report is found with
  \<^verbatim>\<open>old.match(/```json\n([\s\S]+?)\n```/)\<close>: the leftmost position at which the opening
  fence is followed by at least one character and then, as early as possible, by the
  closing fence. \<open>lazy_capture\<close> is the group \<open>([\s\S]+?)\<close> followed by the closing
  fence, on the text after the opening fence.
\<close>

definition fence_open :: string where
  "fence_open = [CHR 0x60, CHR 0x60, CHR 0x60] @ ''json'' @ [CHR 0x0A]"

definition fence_close :: string where
  "fence_close = [CHR 0x0A, CHR 0x60, CHR 0x60, CHR 0x60]"

fun lazy_capture :: "string \<Rightarrow> string option" where
  "lazy_capture [] = None"
| "lazy_capture (c # cs) =
     (if starts_with cs fence_close then Some [c]
      else (case lazy_capture cs of None \<Rightarrow> None | Some m \<Rightarrow> Some (c # m)))"

fun block_match :: "string \<Rightarrow> string option" where
  "block_match [] = None"
| "block_match (c # cs) =
     (if starts_with (c # cs) fence_open then
        (case lazy_capture (drop (length fence_open) (c # cs)) of
           Some m \<Rightarrow> Some m
         | None \<Rightarrow> block_match cs)
      else block_match cs)"

text \<open>
  Reading the history at start-up; the argument is the content of the report file, or
  \<open>None\<close> when the file does not exist:
  \<^verbatim>\<open>let history = [];\<close>
  \<^verbatim>\<open>if (fs.existsSync(REPORT_PATH)) { const old = fs.readFileSync(REPORT_PATH, "utf-8");\<close>
  \<^verbatim>\<open>  const match = old.match(...);\<close>
  \<^verbatim>\<open>  if (match) { try { history = JSON.parse(match[1]); } catch (e) {} } }\<close>
\<close>

definition load_history :: "string option \<Rightarrow> json" where
  "load_history file =
     (case file of
        None \<Rightarrow> JArr []
      | Some old \<Rightarrow>
          (case block_match old of
             None \<Rightarrow> JArr []
           | Some m \<Rightarrow> (case JSON_parse m of None \<Rightarrow> JArr [] | Some v \<Rightarrow> v)))"

text \<open>
  The append on the value that was loaded:
  \<^verbatim>\<open>history.push({ date: ..., results: todayResults });\<close>
  \<^verbatim>\<open>if (history.length > MAX_DAYS) history = history.slice(-MAX_DAYS);\<close>
  Only an array has a \<open>push\<close> method; on any other JSON value the call throws a
  TypeError, which nothing catches.
\<close>

datatype js_error = TypeError

definition push_history :: "json \<Rightarrow> json \<Rightarrow> js_error + json" where
  "push_history history d =
     (case history of
        JArr xs \<Rightarrow> Inr (JArr (append_history xs d))
      | _ \<Rightarrow> Inl TypeError)"

text \<open>
  The report file. \<open>md\<close> is the text above the history block: the summary, built from
  counts and rates, and one table row per endpoint,
  \<^verbatim>\<open>`| ${s.status} | ${s.name} | ${s.detail} | [Link](${s.api}) | ${s.searchStatus} |\<close>
  \<^verbatim>\<open>   ${s.ok} | ${s.fail} | ${s.successRate} | ${s.trend} |\n`\<close>,
  whose fields are taken here as the strings they are rendered to (the record \<open>stat\<close>). Then
  \<^verbatim>\<open>md + details_open + "```json\n" + JSON.stringify(history, null, 2) + "\n```\n"\<close>
  \<^verbatim>\<open>   + "</details>\n"\<close>.
\<close>

record stat =
  st_status :: string
  st_name :: string
  st_detail :: string
  st_api :: string
  st_searchStatus :: string
  st_ok :: string
  st_fail :: string
  st_successRate :: string
  st_trend :: string

definition table_row :: "stat \<Rightarrow> string" where
  "table_row s =
     ''| '' @ st_status s @ '' | '' @ st_name s @ '' | '' @ st_detail s
     @ '' | [Link]('' @ st_api s @ '') | '' @ st_searchStatus s
     @ '' | '' @ st_ok s @ '' | '' @ st_fail s @ '' | '' @ st_successRate s
     @ '' | '' @ st_trend s @ '' |'' @ [CHR 0x0A]"

definition render_md :: "string \<Rightarrow> string list \<Rightarrow> string" where
  "render_md summary rows = summary @ concat rows"

definition details_open :: string where
  "details_open =
     [CHR 0x0A] @ ''<details>'' @ [CHR 0x0A] @ ''<summary>''
     @ [CHR 0xF0, CHR 0x9F, CHR 0x93, CHR 0x9C] @ '' ''
     @ [CHR 0xE7, CHR 0x82, CHR 0xB9, CHR 0xE5, CHR 0x87, CHR 0xBB, CHR 0xE5, CHR 0xB1, CHR 0x95,
        CHR 0xE5, CHR 0xBC, CHR 0x80, CHR 0xE6, CHR 0x9F, CHR 0xA5, CHR 0xE7, CHR 0x9C, CHR 0x8B,
        CHR 0xE5, CHR 0x8E, CHR 0x86, CHR 0xE5, CHR 0x8F, CHR 0xB2, CHR 0xE6, CHR 0xA3, CHR 0x80,
        CHR 0xE6, CHR 0xB5, CHR 0x8B, CHR 0xE6, CHR 0x95, CHR 0xB0, CHR 0xE6, CHR 0x8D, CHR 0xAE]
     @ '' (JSON)</summary>'' @ [CHR 0x0A, CHR 0x0A]"

definition reportFileContent :: "string \<Rightarrow> json \<Rightarrow> string" where
  "reportFileContent md history =
     md @ details_open @ fence_open @ stringify 0 history @ fence_close @ [CHR 0x0A]
     @ ''</details>'' @ [CHR 0x0A]"

text \<open>
  Two notions for the proofs about the history block. \<open>no_num\<close>: the value holds no
  number, as every value built from \<open>history\<close> does. \<open>nl_ok\<close>: every line feed of the
  text is followed, within the text, by a space or a closing bracket; so the text has
  no line feed followed by a backquote, which is how the closing fence begins.
\<close>

fun no_num :: "json \<Rightarrow> bool" where
  "no_num JNull = True"
| "no_num (JBool b) = True"
| "no_num (JNum l) = False"
| "no_num (JStr s) = True"
| "no_num (JArr vs) = list_all no_num vs"
| "no_num (JObj ms) = list_all (\<lambda>(k, v). no_num v) ms"

fun nl_ok :: "string \<Rightarrow> bool" where
  "nl_ok [] = True"
| "nl_ok [c] = (c \<noteq> CHR 0x0A)"
| "nl_ok (c # d # cs) =
     ((if c = CHR 0x0A then d = CHR 0x20 \<or> d = CHR '']'' \<or> d = CHR ''}'' else True)
      \<and> nl_ok (d # cs))"

text \<open>
  How a character of a string comes back from the first pass over its quoted form: as
  a raw character, or as a code unit when it was written as \<open>\\u00xx\<close>.
\<close>

definition unit_of :: "char \<Rightarrow> unit16" where
  "unit_of c =
     (if (of_char c :: nat) < 32 \<and> c \<noteq> CHR 0x08 \<and> c \<noteq> CHR 0x0C \<and> c \<noteq> CHR 0x0A
         \<and> c \<noteq> CHR 0x0D \<and> c \<noteq> CHR 0x09
      then Esc (of_char c) else Raw c)"

text \<open>The first character of a printed value.\<close>

definition opens_value :: "char \<Rightarrow> bool" where
  "opens_value c = (c = CHR ''n'' \<or> c = CHR ''t'' \<or> c = CHR ''f'' \<or> c = CHR 0x22
     \<or> c = CHR ''['' \<or> c = CHR ''{'')"

section \<open>Properties of the history window\<close>

lemma streak_loop_takeWhile:
  "n \<le> length h \<Longrightarrow>
   streak_loop h a n k = k + length (takeWhile (failed a) (rev (take n h)))"
proof (induction n arbitrary: k)
  case 0
  then show ?case by simp
next
  case (Suc n)
  then have lt: "n < length h" by simp
  have unfold_rev: "rev (take (Suc n) h) = h ! n # rev (take n h)"
    using lt by (simp add: take_Suc_conv_app_nth)
  show ?case
  proof (cases "find_rec (h ! n) a")
    case None
    then show ?thesis by (simp add: unfold_rev failed_def)
  next
    case (Some r)
    with Suc.IH [of "Suc k"] lt show ?thesis
      by (simp add: unfold_rev failed_def)
  qed
qed

lemma streak_loop_readme_takeWhile:
  "n \<le> length h \<Longrightarrow>
   streak_loop_readme h a n k =
     k + length (takeWhile (\<lambda>d. \<not> succeeded a d) (rev (take n h)))"
proof (induction n arbitrary: k)
  case 0
  then show ?case by simp
next
  case (Suc n)
  then have lt: "n < length h" by simp
  have unfold_rev: "rev (take (Suc n) h) = h ! n # rev (take n h)"
    using lt by (simp add: take_Suc_conv_app_nth)
  show ?case
  proof (cases "find_rec (h ! n) a")
    case None
    with Suc.IH [of "Suc k"] lt show ?thesis
      by (simp add: unfold_rev succeeded_def)
  next
    case (Some r)
    with Suc.IH [of "Suc k"] lt show ?thesis
      by (simp add: unfold_rev succeeded_def)
  qed
qed

lemma streak_eq: "streak h a = length (takeWhile (failed a) (rev h))"
  by (simp add: streak_def streak_loop_takeWhile)

lemma streak_readme_eq:
  "streak_readme h a = length (takeWhile (\<lambda>d. \<not> succeeded a d) (rev h))"
  by (simp add: streak_readme_def streak_loop_readme_takeWhile)

lemma not_succeeded_iff: "(\<not> succeeded a d) = (missing a d \<or> failed a d)"
  by (simp add: succeeded_def missing_def failed_def split: option.splits)

text \<open>
  C1 (amended). Both loops walk the window from the most recent record to the oldest.
  The loop of the README variant counts every record in which the endpoint has no
  recorded outcome or a failing one and stops only at the first record with a successful
  outcome, so it computes the streak of the specification. The loop of
  \<^verbatim>\<open>check_api.js\<close> counts the records with a failing outcome only: a record with no
  outcome for the endpoint ends the count just as a successful one does.
\<close>

theorem C1_streak:
  "streak_readme h a = streak_spec h a \<and>
   streak h a = length (takeWhile (failed a) (rev h))"
  by (simp add: streak_readme_eq streak_eq streak_spec_def not_succeeded_iff)

text \<open>
  C1 as stated fails on \<^verbatim>\<open>check_api.js\<close>: with a failing record today and no record
  for the endpoint the day before, the loop stops at the missing record.
\<close>

theorem C1_counterexample:
  "streak
     [\<lparr>date = ''2024-01-01'', results = []\<rparr>,
      \<lparr>date = ''2024-01-02'',
       results = [\<lparr>res_name = Some ''a'', res_api = ''u'', success = False,
                   searchStatus = ''-''\<rparr>]\<rparr>] ''u'' = 1 \<and>
   streak_spec
     [\<lparr>date = ''2024-01-01'', results = []\<rparr>,
      \<lparr>date = ''2024-01-02'',
       results = [\<lparr>res_name = Some ''a'', res_api = ''u'', success = False,
                   searchStatus = ''-''\<rparr>]\<rparr>] ''u'' = 2"
  by (simp add: streak_def streak_spec_def find_rec_def missing_def failed_def
      numeral_2_eq_2)

lemma MAX_DAYS_pos: "0 < MAX_DAYS"
  by (simp add: MAX_DAYS_def)

lemma length_append_history:
  "length (append_history h d) = min (Suc (length h)) MAX_DAYS"
  using MAX_DAYS_pos by (auto simp: append_history_def Let_def)

text \<open>
  C4 (amended). In \<^verbatim>\<open>check_api.js\<close> the new record is added at the end and the oldest
  records are dropped until at most \<open>MAX_DAYS\<close> remain, for every history. The README
  variant drops exactly one record when the length exceeds \<open>MAX_DAYS\<close>; it agrees with
  \<^verbatim>\<open>check_api.js\<close>, and so keeps the bound, when the history it starts from has at most
  \<open>MAX_DAYS\<close> records.
\<close>

theorem C4_append:
  "append_history h d = drop (length (h @ [d]) - MAX_DAYS) (h @ [d]) \<and>
   last (append_history h d) = d \<and>
   length (append_history h d) = min (length (h @ [d])) MAX_DAYS \<and>
   length (append_history h d) \<le> MAX_DAYS \<and>
   (length h \<le> MAX_DAYS \<longrightarrow> append_history_readme h d = append_history h d)"
proof -
  have eq: "append_history h d = drop (length (h @ [d]) - MAX_DAYS) (h @ [d])"
    by (simp add: append_history_def Let_def)
  have "drop (length (h @ [d]) - MAX_DAYS) (h @ [d]) \<noteq> []"
    by (simp add: MAX_DAYS_def)
  then have lst: "last (append_history h d) = d"
    unfolding eq by (simp add: last_drop MAX_DAYS_def)
  have len: "length (append_history h d) = min (length (h @ [d])) MAX_DAYS"
    by (simp add: length_append_history)
  have agree: "length h \<le> MAX_DAYS \<longrightarrow> append_history_readme h d = append_history h d"
  proof
    assume le: "length h \<le> MAX_DAYS"
    show "append_history_readme h d = append_history h d"
    proof (cases "length h = MAX_DAYS")
      case True
      then have one: "length (h @ [d]) - MAX_DAYS = 1" by simp
      have "append_history h d = drop 1 (h @ [d])"
        unfolding eq one ..
      also have "\<dots> = tl (h @ [d])"
        by (simp only: One_nat_def drop_Suc drop_0)
      finally show ?thesis
        using True by (simp add: append_history_readme_def Let_def)
    next
      case False
      with le have "length h < MAX_DAYS" by simp
      then show ?thesis
        by (simp add: append_history_readme_def append_history_def Let_def)
    qed
  qed
  from eq lst len agree show ?thesis by simp
qed

theorem C4_append_witness:
  "length (replicate 30 (0::nat)) \<le> MAX_DAYS \<and>
   append_history_readme (replicate 30 (0::nat)) 1 = append_history (replicate 30 0) 1 \<and>
   length (append_history (replicate 30 (0::nat)) 1) = 30"
  using C4_append [of "replicate 30 (0::nat)" 1] by (simp add: MAX_DAYS_def)

text \<open>
  C4 as stated fails on the README variant: from a history of 31 records it keeps 31.
\<close>

theorem C4_counterexample:
  "length (append_history_readme (replicate 31 (0::nat)) 1) = 31 \<and> MAX_DAYS = 30"
  by (simp add: append_history_readme_def MAX_DAYS_def)

section \<open>Properties of the probes\<close>

lemma all_throwD: "all_throw net \<Longrightarrow> \<exists>m. net k u = Threw m"
  by (simp add: all_throw_def)

lemma snoc_replicate: "(log @ [url]) @ replicate n url = log @ replicate (Suc n) url"
  by (simp add: replicate_app_Cons_same)

lemma safeGet_from_all_throw:
  "all_throw net \<Longrightarrow> 1 \<le> attempt \<Longrightarrow> attempt \<le> MAX_RETRY \<Longrightarrow>
    safeGet_from net url attempt log = (False, log @ replicate (Suc MAX_RETRY - attempt) url)"
proof (induction net url attempt log rule: safeGet_from.induct)
  case (1 net url attempt log)
  obtain m where m: "net (length log) url = Threw m"
    using all_throwD [OF "1.prems"(1)] by blast
  show ?case
  proof (cases "attempt < MAX_RETRY")
    case True
    then have "safeGet_from net url attempt log = safeGet_from net url (Suc attempt) (log @ [url])"
      using m "1.prems" by (subst safeGet_from.simps) simp
    also have "\<dots> = (False, (log @ [url]) @ replicate (Suc MAX_RETRY - Suc attempt) url)"
      using "1.IH" [OF _ m True] "1.prems" True by simp
    also have "(log @ [url]) @ replicate (Suc MAX_RETRY - Suc attempt) url
        = log @ replicate (Suc MAX_RETRY - attempt) url"
      using True by (simp only: snoc_replicate) (simp add: Suc_diff_le)
    finally show ?thesis .
  next
    case False
    with "1.prems" have eq: "attempt = MAX_RETRY" by simp
    show ?thesis
      using m eq by (subst safeGet_from.simps) simp
  qed
qed

lemma safeGet_readme_from_all_throw:
  "all_throw net \<Longrightarrow> 1 \<le> i \<Longrightarrow> i \<le> Suc MAX_RETRY \<Longrightarrow>
    safeGet_readme_from net url i log = (False, log @ replicate (Suc MAX_RETRY - i) url)"
proof (induction net url i log rule: safeGet_readme_from.induct)
  case (1 net url i log)
  obtain m where m: "net (length log) url = Threw m"
    using all_throwD [OF "1.prems"(1)] by blast
  show ?case
  proof (cases "i \<le> MAX_RETRY")
    case True
    then have "safeGet_readme_from net url i log
        = safeGet_readme_from net url (Suc i) (log @ [url])"
      using m by (subst safeGet_readme_from.simps) simp
    also have "\<dots> = (False, (log @ [url]) @ replicate (Suc MAX_RETRY - Suc i) url)"
      using "1.IH" [OF True m] "1.prems" True by simp
    also have "(log @ [url]) @ replicate (Suc MAX_RETRY - Suc i) url
        = log @ replicate (Suc MAX_RETRY - i) url"
      using True by (simp only: snoc_replicate) (simp add: Suc_diff_le)
    finally show ?thesis .
  next
    case False
    with "1.prems" have eq: "i = Suc MAX_RETRY" by simp
    show ?thesis
      using eq by (subst safeGet_readme_from.simps) simp
  qed
qed

lemma testSearch_from_all_throw:
  "all_throw net \<Longrightarrow> 1 \<le> attempt \<Longrightarrow> attempt \<le> MAX_RETRY \<Longrightarrow>
    testSearch_from net a kw attempt log =
      (str_cross, log @ replicate (Suc MAX_RETRY - attempt) (a @ ''?wd='' @ encodeURIComponent kw))"
proof (induction net a kw attempt log rule: testSearch_from.induct)
  case (1 net a kw attempt log)
  let ?url = "a @ ''?wd='' @ encodeURIComponent kw"
  obtain m where m: "net (length log) ?url = Threw m"
    using all_throwD [OF "1.prems"(1)] by blast
  show ?case
  proof (cases "attempt < MAX_RETRY")
    case True
    then have "testSearch_from net a kw attempt log
        = testSearch_from net a kw (Suc attempt) (log @ [?url])"
      using m "1.prems" by (subst testSearch_from.simps) (simp add: Let_def)
    also have "\<dots> = (str_cross, (log @ [?url]) @ replicate (Suc MAX_RETRY - Suc attempt) ?url)"
      using "1.IH" [OF _ refl m True] "1.prems" True by simp
    also have "(log @ [?url]) @ replicate (Suc MAX_RETRY - Suc attempt) ?url
        = log @ replicate (Suc MAX_RETRY - attempt) ?url"
      using True by (simp only: snoc_replicate) (simp add: Suc_diff_le)
    finally show ?thesis .
  next
    case False
    with "1.prems" have eq: "attempt = MAX_RETRY" by simp
    show ?thesis
      using m eq by (subst testSearch_from.simps) (simp add: Let_def)
  qed
qed

lemma try_source_all_throw:
  "all_throw net \<Longrightarrow> \<exists>m. try_source net kw it er log = (Thrown m, log @ [baseUrl it])"
  using all_throwD [of net "length log" "baseUrl it"]
  by (auto simp: try_source_def)

lemma testSource_from_all_throw:
  "all_throw net \<Longrightarrow> 1 \<le> attempt \<Longrightarrow> attempt \<le> Suc MAX_RETRY_scan \<Longrightarrow>
    scan_success (fst (testSource_from net kw it attempt er log)) = False \<and>
    snd (testSource_from net kw it attempt er log)
      = log @ replicate (Suc MAX_RETRY_scan - attempt) (baseUrl it)"
proof (induction net kw it attempt er log rule: testSource_from.induct)
  case (1 net kw it attempt er log)
  obtain m where m: "try_source net kw it er log = (Thrown m, log @ [baseUrl it])"
    using try_source_all_throw [OF "1.prems"(1)] by blast
  show ?case
  proof (cases "attempt \<le> MAX_RETRY_scan")
    case True
    then have step: "testSource_from net kw it attempt er log
        = testSource_from net kw it (Suc attempt) m (log @ [baseUrl it])"
      using m by (subst testSource_from.simps) simp
    have "(log @ [baseUrl it]) @ replicate (Suc MAX_RETRY_scan - Suc attempt) (baseUrl it)
        = log @ replicate (Suc MAX_RETRY_scan - attempt) (baseUrl it)"
      using True by (simp only: snoc_replicate) (simp add: Suc_diff_le)
    then show ?thesis
      using "1.IH" [OF True m [symmetric] refl] "1.prems" True unfolding step by simp
  next
    case False
    with "1.prems" have eq: "attempt = Suc MAX_RETRY_scan" by simp
    show ?thesis
      using eq by (subst (1 2) testSource_from.simps) simp
  qed
qed

lemma MAX_RETRY_pos: "1 \<le> MAX_RETRY"
  by (simp add: MAX_RETRY_def)

lemma task_all_throw:
  assumes "all_throw net" and "\<not> disabled e"
  shows "task net kw e =
    (\<lparr>res_name = Some (name e), res_api = api e, success = False, searchStatus = str_cross\<rparr>,
     replicate MAX_RETRY (api e)
     @ replicate MAX_RETRY (api e @ ''?wd='' @ encodeURIComponent kw))"
  using assms MAX_RETRY_pos
  by (simp add: task_def safeGet_def testSearch_def safeGet_from_all_throw
      testSearch_from_all_throw ENABLE_SEARCH_TEST_def)

lemma task_readme_all_throw:
  assumes "all_throw net" and "\<not> disabled e"
  shows "task_readme net kw e =
    (\<lparr>res_name = None, res_api = api e, success = False, searchStatus = ''-''\<rparr>,
     replicate MAX_RETRY (api e))"
  using assms MAX_RETRY_pos
  by (simp add: task_readme_def safeGet_readme_def safeGet_readme_from_all_throw)

text \<open>
  C3 (amended). Take an enabled endpoint and a network on which every call throws.
  \<^verbatim>\<open>safeGet\<close> then makes exactly \<open>MAX_RETRY\<close> attempts and returns \<open>false\<close>. The probe
  of the README variant stops there: \<open>success = false\<close> after exactly \<open>MAX_RETRY\<close>
  attempts. The probe of \<^verbatim>\<open>check_api.js\<close> runs \<^verbatim>\<open>testSearch\<close> whatever \<^verbatim>\<open>safeGet\<close>
  returned, and \<^verbatim>\<open>testSearch\<close> retries in the same way, so that probe returns
  \<open>success = false\<close> after exactly \<open>2 * MAX_RETRY\<close> attempts. \<^verbatim>\<open>testSource\<close> of the
  scanner returns \<open>success = false\<close> after exactly its own \<open>MAX_RETRY\<close>, which is 2.
\<close>

theorem C3_exhausted_retries:
  assumes "\<forall>k u. \<exists>m. net k u = Threw m"
  shows "safeGet net url [] = (False, replicate MAX_RETRY url) \<and>
    (\<not> disabled e \<longrightarrow>
       success (fst (task_readme net kw e)) = False \<and>
       length (snd (task_readme net kw e)) = MAX_RETRY) \<and>
    (\<not> disabled e \<longrightarrow>
       success (fst (task net kw e)) = False \<and>
       length (snd (task net kw e)) = 2 * MAX_RETRY) \<and>
    scan_success (fst (testSource net kw it)) = False \<and>
    length (snd (testSource net kw it)) = MAX_RETRY_scan"
proof -
  from assms have thr: "all_throw net"
    by (simp add: all_throw_def)
  have a: "safeGet net url [] = (False, replicate MAX_RETRY url)"
    using thr MAX_RETRY_pos by (simp add: safeGet_def safeGet_from_all_throw)
  have b: "\<not> disabled e \<longrightarrow>
       success (fst (task_readme net kw e)) = False \<and>
       length (snd (task_readme net kw e)) = MAX_RETRY"
    using thr by (simp add: task_readme_all_throw)
  have c: "\<not> disabled e \<longrightarrow>
       success (fst (task net kw e)) = False \<and>
       length (snd (task net kw e)) = 2 * MAX_RETRY"
    using thr by (simp add: task_all_throw)
  have d: "scan_success (fst (testSource net kw it)) = False \<and>
    length (snd (testSource net kw it)) = MAX_RETRY_scan"
    using testSource_from_all_throw [OF thr, of 1 kw it "[]" "[]"]
    by (simp add: testSource_def)
  from a b c d show ?thesis by blast
qed

theorem C3_exhausted_retries_witness:
  "(\<forall>k u. \<exists>m. (\<lambda>k u. Threw ''timeout'') k u = Threw m) \<and>
   \<not> disabled \<lparr>name = ''a'', api = ''http://a'', detail = ''-'', disabled = False\<rparr> \<and>
   length (snd (task_readme (\<lambda>k u. Threw ''timeout'') ''kw''
      \<lparr>name = ''a'', api = ''http://a'', detail = ''-'', disabled = False\<rparr>)) = 3 \<and>
   length (snd (task (\<lambda>k u. Threw ''timeout'') ''kw''
      \<lparr>name = ''a'', api = ''http://a'', detail = ''-'', disabled = False\<rparr>)) = 6 \<and>
   length (snd (testSource (\<lambda>k u. Threw ''timeout'') ''kw''
      \<lparr>cfg_id = ''1'', cfg_name = ''a'', baseUrl = ''http://a'', group = ''normal'',
       enabled = True\<rparr>)) = 2"
  using C3_exhausted_retries [of "\<lambda>k u. Threw ''timeout''" "''http://a''"
      "\<lparr>name = ''a'', api = ''http://a'', detail = ''-'', disabled = False\<rparr>" "''kw''"
      "\<lparr>cfg_id = ''1'', cfg_name = ''a'', baseUrl = ''http://a'', group = ''normal'',
       enabled = True\<rparr>"]
  by (simp add: MAX_RETRY_def MAX_RETRY_scan_def)

text \<open>
  C3 as stated fails on \<^verbatim>\<open>check_api.js\<close>: with every call throwing, the probe of an
  enabled endpoint makes 6 network attempts, and \<open>MAX_RETRY\<close> is 3.
\<close>

theorem C3_counterexample:
  "length (snd (task (\<lambda>k u. Threw ''timeout'') ''kw''
      \<lparr>name = ''a'', api = ''http://a'', detail = ''-'', disabled = False\<rparr>)) = 6 \<and>
   MAX_RETRY = 3"
  by (simp add: task_all_throw all_throw_def MAX_RETRY_def)

text \<open>
  C2 (amended). In both report generators the probe of an endpoint configured with
  \<open>enabled = false\<close> returns at once with \<open>success = false\<close> and the search status
  "disabled", and its log of network calls is empty, whatever the network would have
  answered. (\<^verbatim>\<open>testSource\<close> of the scanner never reads \<open>enabled\<close>.)
\<close>

theorem C2_disabled_probe:
  assumes "enabled s = False"
  shows "task net kw (apiEntry_of s) =
      (\<lparr>res_name = Some (cfg_name s), res_api = baseUrl s, success = False,
        searchStatus = str_disabled\<rparr>, []) \<and>
    task_readme net kw (apiEntry_of s) =
      (\<lparr>res_name = None, res_api = baseUrl s, success = False,
        searchStatus = str_disabled\<rparr>, [])"
  using assms by (simp add: task_def task_readme_def apiEntry_of_def)

theorem C2_disabled_probe_witness:
  "enabled \<lparr>cfg_id = ''1'', cfg_name = ''a'', baseUrl = ''http://a'', group = ''normal'',
      enabled = False\<rparr> = False \<and>
   task (\<lambda>k u. Response 200 Falsy) ''kw''
     (apiEntry_of \<lparr>cfg_id = ''1'', cfg_name = ''a'', baseUrl = ''http://a'',
        group = ''normal'', enabled = False\<rparr>)
   = (\<lparr>res_name = Some ''a'', res_api = ''http://a'', success = False,
       searchStatus = str_disabled\<rparr>, []) \<and>
   task_readme (\<lambda>k u. Response 200 Falsy) ''kw''
     (apiEntry_of \<lparr>cfg_id = ''1'', cfg_name = ''a'', baseUrl = ''http://a'',
        group = ''normal'', enabled = False\<rparr>)
   = (\<lparr>res_name = None, res_api = ''http://a'', success = False,
       searchStatus = str_disabled\<rparr>, [])"
  using C2_disabled_probe [of "\<lparr>cfg_id = ''1'', cfg_name = ''a'', baseUrl = ''http://a'',
      group = ''normal'', enabled = False\<rparr>" "\<lambda>k u. Response 200 Falsy" "''kw''"]
  by simp

lemma polluted_film: "\<not> polluted ''film''"
  by (simp add: polluted_def POLLUTED_KEYWORDS_def starts_with_def)

text \<open>
  C2 as stated fails on the scanner: for an endpoint with \<open>enabled = false\<close> and a
  network that answers, \<^verbatim>\<open>testSource\<close> makes two network calls and reports success.
\<close>

theorem C2_counterexample:
  "testSource
     (\<lambda>k u. Response 200 (Object (Some [\<lparr>vod_name = Some ''film'', item_json = ''{}''\<rparr>])))
     ''kw''
     \<lparr>cfg_id = ''1'', cfg_name = ''a'', baseUrl = ''http://a'', group = ''normal'',
      enabled = False\<rparr>
   = (\<lparr>scan_success = True, reason = str_normal\<rparr>,
      [''http://a'', ''http://a?ac=detail&wd=kw''])"
  by (simp add: testSource_def testSource_from.simps try_source_def MAX_RETRY_scan_def
      inspect_def polluted_film encodeURIComponent_def encode_byte_def unreserved_def)


lemma testSource_from_exhausted:
  "MAX_RETRY_scan < attempt \<Longrightarrow>
   testSource_from net kw it attempt er log = (\<lparr>scan_success = False, reason = er\<rparr>, log)"
  by (subst testSource_from.simps) simp

lemma inspect_nonempty: "er \<noteq> [] \<Longrightarrow> inspect data er \<noteq> []"
  by (simp add: inspect_def str_bad_format_def str_search_empty_def str_polluted_def Let_def
      split: body.splits option.splits list.splits)

lemma inspect_polluted:
  "vod_name x = Some n \<Longrightarrow> polluted n \<Longrightarrow> inspect (Object (Some (x # xs))) er = str_polluted"
  by (simp add: inspect_def)

lemma try_source_stale:
  assumes "er \<noteq> []"
  shows "\<exists>m log'. try_source net kw it er log = (Thrown m, log')"
  using inspect_nonempty [OF assms]
  by (auto simp: try_source_def Let_def split: http_result.splits)

lemma last_attempt_fails:
  assumes "er \<noteq> []"
  shows "scan_success (fst (testSource_from net kw it MAX_RETRY_scan er log)) = False"
proof -
  from try_source_stale [OF assms] obtain m log'
    where "try_source net kw it er log = (Thrown m, log')" by blast
  then show ?thesis
    by (subst testSource_from.simps) (simp add: testSource_from_exhausted)
qed

lemma testSource_resumes:
  "after_failures net kw it n = Some (er, log) \<Longrightarrow> n \<le> MAX_RETRY_scan \<Longrightarrow>
   testSource net kw it = testSource_from net kw it (Suc n) er log"
proof (induction n arbitrary: er log)
  case 0
  then show ?case by (simp add: testSource_def)
next
  case (Suc n)
  from Suc.prems(1) obtain er0 log0 where prev: "after_failures net kw it n = Some (er0, log0)"
    and thrown: "try_source net kw it er0 log0 = (Thrown er, log)"
    by (auto split: option.splits prod.splits tried.splits)
  from Suc.IH [OF prev] Suc.prems(2)
  have "testSource net kw it = testSource_from net kw it (Suc n) er0 log0"
    by simp
  also have "\<dots> = testSource_from net kw it (Suc (Suc n)) er log"
    using Suc.prems(2) thrown by (subst testSource_from.simps) simp
  finally show ?case .
qed

text \<open>
  C6 (amended). Take any attempt that \<^verbatim>\<open>testSource\<close> makes, after \<open>n\<close> attempts that
  failed. When this attempt passes the connectivity stage and its search stage yields a
  non-empty list whose first item has a display name containing one of the pollution
  markers, the probe returns \<open>success = false\<close>; when the attempt is the last one, the
  reason returned is the pollution message.
\<close>

theorem C6_polluted_first_item:
  assumes "n < MAX_RETRY_scan"
    and "after_failures net kw it n = Some (er, log)"
    and "net (length log) (baseUrl it) = Response 200 pd"
    and "net (Suc (length log)) (baseUrl it @ ''?ac=detail&wd='' @ encodeURIComponent kw)
           = Response st (Object (Some (x # xs)))"
    and "vod_name x = Some nm" and "polluted nm"
  shows "scan_success (fst (testSource net kw it)) = False \<and>
    (Suc n = MAX_RETRY_scan \<longrightarrow> reason (fst (testSource net kw it)) = str_polluted)"
proof -
  let ?log' = "log @ [baseUrl it, baseUrl it @ ''?ac=detail&wd='' @ encodeURIComponent kw]"
  have ne: "str_polluted \<noteq> []"
    by (simp add: str_polluted_def)
  have thrown: "try_source net kw it er log = (Thrown str_polluted, ?log')"
    using assms(3-6) ne by (simp add: try_source_def Let_def inspect_polluted)
  have "testSource net kw it = testSource_from net kw it (Suc n) er log"
    using assms(1,2) by (intro testSource_resumes) simp_all
  also have "\<dots> = testSource_from net kw it (Suc (Suc n)) str_polluted ?log'"
    using assms(1) thrown by (subst testSource_from.simps) simp
  finally have step: "testSource net kw it
      = testSource_from net kw it (Suc (Suc n)) str_polluted ?log'" .
  show ?thesis
  proof (cases "Suc n = MAX_RETRY_scan")
    case True
    then show ?thesis
      unfolding step by (simp add: testSource_from_exhausted)
  next
    case False
    with assms(1) have "Suc (Suc n) = MAX_RETRY_scan"
      by (simp add: MAX_RETRY_scan_def)
    then show ?thesis
      unfolding step using False last_attempt_fails [OF ne] by simp
  qed
qed

lemma polluted_ad: "polluted [CHR 0xE5, CHR 0xB9, CHR 0xBF, CHR 0xE5, CHR 0x91, CHR 0x8A]"
  by (simp add: polluted_def POLLUTED_KEYWORDS_def starts_with_def)

lemma polluted_twice:
  "after_failures
     (\<lambda>k u. Response 200 (Object (Some
        [\<lparr>vod_name = Some [CHR 0xE5, CHR 0xB9, CHR 0xBF, CHR 0xE5, CHR 0x91, CHR 0x8A],
          item_json = ''{}''\<rparr>])))
     ''kw''
     \<lparr>cfg_id = ''1'', cfg_name = ''a'', baseUrl = ''http://a'', group = ''normal'',
      enabled = True\<rparr> 1
   = Some (str_polluted, [''http://a'', ''http://a?ac=detail&wd=kw''])"
  by (simp add: try_source_def inspect_def polluted_ad str_polluted_def
      encodeURIComponent_def encode_byte_def unreserved_def)

theorem C6_polluted_first_item_witness:
  "(1::nat) < MAX_RETRY_scan \<and>
   polluted [CHR 0xE5, CHR 0xB9, CHR 0xBF, CHR 0xE5, CHR 0x91, CHR 0x8A] \<and>
   after_failures
     (\<lambda>k u. Response 200 (Object (Some
        [\<lparr>vod_name = Some [CHR 0xE5, CHR 0xB9, CHR 0xBF, CHR 0xE5, CHR 0x91, CHR 0x8A],
          item_json = ''{}''\<rparr>])))
     ''kw''
     \<lparr>cfg_id = ''1'', cfg_name = ''a'', baseUrl = ''http://a'', group = ''normal'',
      enabled = True\<rparr> 1
   = Some (str_polluted, [''http://a'', ''http://a?ac=detail&wd=kw'']) \<and>
   scan_success (fst (testSource
     (\<lambda>k u. Response 200 (Object (Some
        [\<lparr>vod_name = Some [CHR 0xE5, CHR 0xB9, CHR 0xBF, CHR 0xE5, CHR 0x91, CHR 0x8A],
          item_json = ''{}''\<rparr>])))
     ''kw''
     \<lparr>cfg_id = ''1'', cfg_name = ''a'', baseUrl = ''http://a'', group = ''normal'',
      enabled = True\<rparr>)) = False \<and>
   reason (fst (testSource
     (\<lambda>k u. Response 200 (Object (Some
        [\<lparr>vod_name = Some [CHR 0xE5, CHR 0xB9, CHR 0xBF, CHR 0xE5, CHR 0x91, CHR 0x8A],
          item_json = ''{}''\<rparr>])))
     ''kw''
     \<lparr>cfg_id = ''1'', cfg_name = ''a'', baseUrl = ''http://a'', group = ''normal'',
      enabled = True\<rparr>)) = str_polluted"
  using C6_polluted_first_item [where n = 1 and er = str_polluted
      and log = "[''http://a'', ''http://a?ac=detail&wd=kw'']" and kw = "''kw''"
      and st = 200 and pd = "Object (Some
        [\<lparr>vod_name = Some [CHR 0xE5, CHR 0xB9, CHR 0xBF, CHR 0xE5, CHR 0x91, CHR 0x8A],
          item_json = ''{}''\<rparr>])"
      and x = "\<lparr>vod_name = Some [CHR 0xE5, CHR 0xB9, CHR 0xBF, CHR 0xE5, CHR 0x91, CHR 0x8A],
          item_json = ''{}''\<rparr>"
      and xs = "[]" and nm = "[CHR 0xE5, CHR 0xB9, CHR 0xBF, CHR 0xE5, CHR 0x91, CHR 0x8A]"
      and it = "\<lparr>cfg_id = ''1'', cfg_name = ''a'', baseUrl = ''http://a'', group = ''normal'',
      enabled = True\<rparr>"
      and net = "\<lambda>k u. Response 200 (Object (Some
        [\<lparr>vod_name = Some [CHR 0xE5, CHR 0xB9, CHR 0xBF, CHR 0xE5, CHR 0x91, CHR 0x8A],
          item_json = ''{}''\<rparr>]))"]
    polluted_ad polluted_twice
  by (simp add: MAX_RETRY_scan_def)

text \<open>
  C6 as stated fails: only the first item is inspected. With a clean first item and a
  second item whose name contains a marker, \<^verbatim>\<open>testSource\<close> reports success.
\<close>

theorem C6_counterexample:
  "polluted [CHR 0xE5, CHR 0xB9, CHR 0xBF, CHR 0xE5, CHR 0x91, CHR 0x8A] \<and>
   fst (testSource
     (\<lambda>k u. Response 200 (Object (Some
        [\<lparr>vod_name = Some ''film'', item_json = ''{}''\<rparr>,
         \<lparr>vod_name = Some [CHR 0xE5, CHR 0xB9, CHR 0xBF, CHR 0xE5, CHR 0x91, CHR 0x8A],
          item_json = ''{}''\<rparr>])))
     ''kw''
     \<lparr>cfg_id = ''1'', cfg_name = ''a'', baseUrl = ''http://a'', group = ''normal'',
      enabled = True\<rparr>)
   = \<lparr>scan_success = True, reason = str_normal\<rparr>"
  by (simp add: polluted_ad testSource_def testSource_from.simps try_source_def
      MAX_RETRY_scan_def inspect_def polluted_film)


section \<open>Properties of one run\<close>

lemma fold_count_day:
  "fold (count_day a) h (x, y) =
     (x + length (filter (succeeded a) h), y + length (filter (failed a) h))"
  by (induction h arbitrary: x y)
     (auto simp: succeeded_def failed_def split: option.splits)

lemma fail_count_eq: "snd (ok_fail h a) = length (filter (failed a) h)"
  by (simp add: ok_fail_def fold_count_day)

lemma streak_snoc: "streak (h @ [d]) a = (if failed a d then Suc (streak h a) else 0)"
  by (simp add: streak_eq)

lemma streak_le_length: "streak h a \<le> length h"
  using length_takeWhile_le [of "failed a" "rev h"] by (simp add: streak_eq)

lemma task_api: "res_api (fst (task net kw e)) = api e"
  by (simp add: task_def Let_def split: prod.splits)

lemma task_disabled:
  "disabled e \<Longrightarrow> fst (task net kw e) =
     \<lparr>res_name = Some (name e), res_api = api e, success = False, searchStatus = str_disabled\<rparr>"
  by (simp add: task_def)

lemma find_today_enum:
  "find (\<lambda>x. api x = a) es = Some e \<Longrightarrow>
   \<exists>j. find (\<lambda>x. res_api x = a)
         (map (\<lambda>(i, e). fst (task (nets i) kw e)) (enumerate n es))
       = Some (fst (task (nets j) kw e))"
proof (induction es arbitrary: n)
  case Nil
  then show ?case by simp
next
  case (Cons x es)
  show ?case
  proof (cases "api x = a")
    case True
    with Cons.prems have "x = e" by simp
    with True show ?thesis by (auto simp: task_api)
  next
    case False
    with Cons.prems have "find (\<lambda>x. api x = a) es = Some e" by simp
    from Cons.IH [OF this, of "Suc n"] False show ?thesis by (simp add: task_api)
  qed
qed

lemma failed_today:
  assumes "find (\<lambda>x. api x = a) es = Some e" and "disabled e"
  shows "failed a \<lparr>date = dt, results = todayResults nets kw es\<rparr>"
proof -
  from find_today_enum [OF assms(1), of nets kw 0]
  obtain j where "find_rec \<lparr>date = dt, results = todayResults nets kw es\<rparr> a
      = Some (fst (task (nets j) kw e))"
    by (auto simp: find_rec_def todayResults_def)
  then show ?thesis
    using assms(2) by (simp add: failed_def task_disabled)
qed

lemma today_apis: "map res_api (todayResults nets kw es) = map api es"
proof -
  have "map res_api (map (\<lambda>(i, e). fst (task (nets i) kw e)) (enumerate n es)) = map api es"
    for n
    by (induction es arbitrary: n) (simp_all add: task_api)
  then show ?thesis by (simp add: todayResults_def)
qed

lemma today_disabled:
  assumes "i < length es" and "disabled (es ! i)"
  shows "success (todayResults nets kw es ! i) = False \<and>
    searchStatus (todayResults nets kw es ! i) = str_disabled"
  using assms by (simp add: todayResults_def nth_enumerate_eq task_disabled)

lemma append_history_short:
  "length h < MAX_DAYS \<Longrightarrow> append_history h d = h @ [d]"
  by (simp add: append_history_def)

lemma append_history_full:
  "length h = MAX_DAYS \<Longrightarrow> append_history h d = tl h @ [d]"
proof -
  assume len: "length h = MAX_DAYS"
  then have "h \<noteq> []" using MAX_DAYS_pos by auto
  then obtain x t where h: "h = x # t" by (cases h) auto
  with len have "length t + 2 - MAX_DAYS = 1" by simp
  then show ?thesis
    using len MAX_DAYS_pos by (simp add: append_history_def Let_def h)
qed

lemma takeWhile_snoc_le:
  "length (takeWhile P (xs @ [y])) \<le> Suc (length (takeWhile P xs))"
  by (induction xs) auto

lemma streak_full_mono:
  assumes "h \<noteq> []" and "failed a d"
  shows "streak h a \<le> streak (tl h @ [d]) a"
proof -
  from assms(1) obtain x t where h: "h = x # t" by (cases h) auto
  have "streak h a = length (takeWhile (failed a) (rev t @ [x]))"
    by (simp add: streak_eq h)
  also have "\<dots> \<le> Suc (length (takeWhile (failed a) (rev t)))"
    by (rule takeWhile_snoc_le)
  also have "\<dots> = streak (tl h @ [d]) a"
    using assms(2) by (simp add: streak_eq h)
  finally show ?thesis .
qed

lemma fail_full_mono:
  assumes "h \<noteq> []" and "failed a d"
  shows "length (filter (failed a) h) \<le> length (filter (failed a) (tl h @ [d]))"
proof -
  from assms(1) obtain x t where h: "h = x # t" by (cases h) auto
  show ?thesis using assms(2) by (simp add: h)
qed


lemma fail_count_le_length: "snd (ok_fail h a) \<le> length h"
  by (simp add: fail_count_eq)

text \<open>
  C10 (amended). On every run of \<^verbatim>\<open>check_api.js\<close> the appended record holds exactly one
  outcome per configured endpoint, in configuration order, disabled ones included, and
  the outcome of a disabled endpoint has \<open>success = false\<close>. Let \<open>a\<close> be a URL whose first
  configured endpoint is disabled. On a run that starts with fewer than \<open>MAX_DAYS\<close>
  records, the fail count and the streak of \<open>a\<close> both grow by exactly one. On a run that
  starts with a full window the oldest record is dropped: the fail count and the streak
  do not decrease, and both are bounded by \<open>MAX_DAYS\<close>.
\<close>

theorem C10_disabled_endpoint_accumulates:
  assumes "find (\<lambda>x. api x = a) apiEntries = Some e" and "disabled e"
  shows "map res_api (todayResults nets kw apiEntries) = map api apiEntries \<and>
    (\<forall>i<length apiEntries. disabled (apiEntries ! i) \<longrightarrow>
       success (todayResults nets kw apiEntries ! i) = False) \<and>
    (length h < MAX_DAYS \<longrightarrow>
       snd (ok_fail (run_history nets kw dt apiEntries h) a) = Suc (snd (ok_fail h a)) \<and>
       streak (run_history nets kw dt apiEntries h) a = Suc (streak h a)) \<and>
    (length h = MAX_DAYS \<longrightarrow>
       snd (ok_fail h a) \<le> snd (ok_fail (run_history nets kw dt apiEntries h) a) \<and>
       snd (ok_fail (run_history nets kw dt apiEntries h) a) \<le> MAX_DAYS \<and>
       streak h a \<le> streak (run_history nets kw dt apiEntries h) a \<and>
       streak (run_history nets kw dt apiEntries h) a \<le> MAX_DAYS)"
proof -
  let ?today = "\<lparr>date = dt, results = todayResults nets kw apiEntries\<rparr>"
  let ?h' = "run_history nets kw dt apiEntries h"
  have f: "failed a ?today"
    using assms by (rule failed_today)
  have one: "map res_api (todayResults nets kw apiEntries) = map api apiEntries"
    by (rule today_apis)
  have two: "\<forall>i<length apiEntries. disabled (apiEntries ! i) \<longrightarrow>
       success (todayResults nets kw apiEntries ! i) = False"
    by (simp add: today_disabled)
  have three: "length h < MAX_DAYS \<longrightarrow>
       snd (ok_fail ?h' a) = Suc (snd (ok_fail h a)) \<and> streak ?h' a = Suc (streak h a)"
    using f by (simp add: run_history_def append_history_short fail_count_eq streak_snoc)
  have four: "length h = MAX_DAYS \<longrightarrow>
       snd (ok_fail h a) \<le> snd (ok_fail ?h' a) \<and> snd (ok_fail ?h' a) \<le> MAX_DAYS \<and>
       streak h a \<le> streak ?h' a \<and> streak ?h' a \<le> MAX_DAYS"
  proof
    assume len: "length h = MAX_DAYS"
    then have ne: "h \<noteq> []" using MAX_DAYS_pos by auto
    have h': "?h' = tl h @ [?today]"
      using len by (simp add: run_history_def append_history_full)
    have len': "length ?h' = MAX_DAYS"
      using len MAX_DAYS_pos unfolding h' by simp
    have a1: "snd (ok_fail h a) \<le> snd (ok_fail ?h' a)"
      unfolding h' fail_count_eq using ne f by (rule fail_full_mono)
    have a2: "snd (ok_fail ?h' a) \<le> MAX_DAYS"
      using fail_count_le_length [of ?h' a] len' by simp
    have a3: "streak h a \<le> streak ?h' a"
      unfolding h' using ne f by (rule streak_full_mono)
    have a4: "streak ?h' a \<le> MAX_DAYS"
      using streak_le_length [of ?h' a] len' by simp
    from a1 a2 a3 a4
    show "snd (ok_fail h a) \<le> snd (ok_fail ?h' a) \<and> snd (ok_fail ?h' a) \<le> MAX_DAYS \<and>
       streak h a \<le> streak ?h' a \<and> streak ?h' a \<le> MAX_DAYS"
      by simp
  qed
  from one two three four show ?thesis by simp
qed

theorem C10_disabled_endpoint_accumulates_witness:
  "find (\<lambda>x. api x = ''u'') [\<lparr>name = ''a'', api = ''u'', detail = ''-'', disabled = True\<rparr>]
     = Some \<lparr>name = ''a'', api = ''u'', detail = ''-'', disabled = True\<rparr> \<and>
   disabled \<lparr>name = ''a'', api = ''u'', detail = ''-'', disabled = True\<rparr> \<and>
   length ([] :: day list) < MAX_DAYS \<and>
   streak (run_history (\<lambda>i k u. Threw ''timeout'') ''kw'' ''2024-01-02''
      [\<lparr>name = ''a'', api = ''u'', detail = ''-'', disabled = True\<rparr>] []) ''u'' = 1 \<and>
   snd (ok_fail (run_history (\<lambda>i k u. Threw ''timeout'') ''kw'' ''2024-01-02''
      [\<lparr>name = ''a'', api = ''u'', detail = ''-'', disabled = True\<rparr>] []) ''u'') = 1 \<and>
   length (replicate 30 \<lparr>date = ''2024-01-01'', results = []\<rparr>) = MAX_DAYS \<and>
   streak (run_history (\<lambda>i k u. Threw ''timeout'') ''kw'' ''2024-01-02''
      [\<lparr>name = ''a'', api = ''u'', detail = ''-'', disabled = True\<rparr>]
      (replicate 30 \<lparr>date = ''2024-01-01'', results = []\<rparr>)) ''u'' \<le> MAX_DAYS"
  using C10_disabled_endpoint_accumulates [where a = "''u''" and h = "[]"
      and apiEntries = "[\<lparr>name = ''a'', api = ''u'', detail = ''-'', disabled = True\<rparr>]"
      and e = "\<lparr>name = ''a'', api = ''u'', detail = ''-'', disabled = True\<rparr>"
      and nets = "\<lambda>i k u. Threw ''timeout''" and kw = "''kw''" and dt = "''2024-01-02''"]
    C10_disabled_endpoint_accumulates [where a = "''u''"
      and h = "replicate 30 \<lparr>date = ''2024-01-01'', results = []\<rparr>"
      and apiEntries = "[\<lparr>name = ''a'', api = ''u'', detail = ''-'', disabled = True\<rparr>]"
      and e = "\<lparr>name = ''a'', api = ''u'', detail = ''-'', disabled = True\<rparr>"
      and nets = "\<lambda>i k u. Threw ''timeout''" and kw = "''kw''" and dt = "''2024-01-02''"]
  by (simp add: MAX_DAYS_def streak_def ok_fail_def)

text \<open>
  C10 as stated fails once the window is full: after 30 records in which the disabled
  endpoint failed, one more run leaves its streak and its fail count at 30.
\<close>

theorem C10_counterexample:
  "disabled \<lparr>name = ''a'', api = ''u'', detail = ''-'', disabled = True\<rparr> \<and>
   streak (replicate 30 \<lparr>date = ''2024-01-01'', results =
       [\<lparr>res_name = Some ''a'', res_api = ''u'', success = False,
         searchStatus = str_disabled\<rparr>]\<rparr>) ''u'' = 30 \<and>
   streak (run_history (\<lambda>i k u. Threw ''timeout'') ''kw'' ''2024-01-02''
      [\<lparr>name = ''a'', api = ''u'', detail = ''-'', disabled = True\<rparr>]
      (replicate 30 \<lparr>date = ''2024-01-01'', results =
       [\<lparr>res_name = Some ''a'', res_api = ''u'', success = False,
         searchStatus = str_disabled\<rparr>]\<rparr>)) ''u'' = 30 \<and>
   snd (ok_fail (replicate 30 \<lparr>date = ''2024-01-01'', results =
       [\<lparr>res_name = Some ''a'', res_api = ''u'', success = False,
         searchStatus = str_disabled\<rparr>]\<rparr>) ''u'') = 30 \<and>
   snd (ok_fail (run_history (\<lambda>i k u. Threw ''timeout'') ''kw'' ''2024-01-02''
      [\<lparr>name = ''a'', api = ''u'', detail = ''-'', disabled = True\<rparr>]
      (replicate 30 \<lparr>date = ''2024-01-01'', results =
       [\<lparr>res_name = Some ''a'', res_api = ''u'', success = False,
         searchStatus = str_disabled\<rparr>]\<rparr>)) ''u'') = 30"
proof -
  let ?d = "\<lparr>date = ''2024-01-01'', results =
       [\<lparr>res_name = Some ''a'', res_api = ''u'', success = False,
         searchStatus = str_disabled\<rparr>]\<rparr>"
  let ?h = "replicate 30 ?d"
  let ?es = "[\<lparr>name = ''a'', api = ''u'', detail = ''-'', disabled = True\<rparr>]"
  let ?t = "\<lparr>date = ''2024-01-02'', results = todayResults (\<lambda>i k u. Threw ''timeout'') ''kw'' ?es\<rparr>"
  have fd: "failed ''u'' ?d"
    by (simp add: failed_def find_rec_def)
  have ft: "failed ''u'' ?t"
    by (simp add: failed_def find_rec_def todayResults_def task_def)
  have run: "run_history (\<lambda>i k u. Threw ''timeout'') ''kw'' ''2024-01-02'' ?es ?h
      = replicate 29 ?d @ [?t]"
  proof -
    have "length ?h = MAX_DAYS" by (simp add: MAX_DAYS_def)
    from append_history_full [OF this, of ?t]
    have "append_history ?h ?t = tl (replicate 30 ?d) @ [?t]" .
    also have "tl (replicate 30 ?d) = replicate 29 ?d"
      by (simp add: tl_replicate)
    finally show ?thesis by (simp add: run_history_def)
  qed
  have s0: "streak ?h ''u'' = 30"
    using fd by (simp add: streak_eq takeWhile_replicate)
  have s1: "streak (replicate 29 ?d @ [?t]) ''u'' = 30"
    using fd ft by (simp add: streak_eq takeWhile_replicate)
  have c0: "snd (ok_fail ?h ''u'') = 30"
    using fd by (simp add: fail_count_eq)
  have c1: "snd (ok_fail (replicate 29 ?d @ [?t]) ''u'') = 30"
    using fd ft by (simp add: fail_count_eq)
  from s0 s1 c0 c1 show ?thesis
    unfolding run by simp
qed
section \<open>Properties of the scheduler\<close>




























section \<open>Properties of the persisted report\<close>

lemma nl_ok_tl: "nl_ok (c # cs) \<Longrightarrow> nl_ok cs"
  by (cases cs) simp_all

lemma nl_ok_append: "nl_ok a \<Longrightarrow> nl_ok b \<Longrightarrow> nl_ok (a @ b)"
proof (induction a rule: nl_ok.induct)
  case 1
  then show ?case by simp
next
  case (2 c)
  then show ?case by (cases b) simp_all
next
  case (3 c d cs)
  then show ?case by simp
qed

lemma no_newline_nl_ok: "CHR 0x0A \<notin> set xs \<Longrightarrow> nl_ok xs"
  by (induction xs rule: nl_ok.induct) auto

lemma lazy_capture_body:
  "nl_ok body \<Longrightarrow> body \<noteq> [] \<Longrightarrow> lazy_capture (body @ fence_close @ tail) = Some body"
proof (induction body)
  case Nil
  then show ?case by simp
next
  case (Cons c cs)
  show ?case
  proof (cases cs)
    case Nil
    then show ?thesis by (simp add: starts_with_def)
  next
    case (Cons d ds)
    have "\<not> starts_with (cs @ fence_close @ tail) fence_close"
    proof (cases ds)
      case Nil
      with Cons Cons.prems(1) show ?thesis
        by (simp add: starts_with_def fence_close_def)
    next
      case (Cons e es)
      with \<open>cs = d # ds\<close> Cons.prems(1) show ?thesis
        by (auto simp: starts_with_def fence_close_def split: if_splits)
    qed
    moreover have "lazy_capture (cs @ fence_close @ tail) = Some cs"
      using Cons.IH nl_ok_tl [OF Cons.prems(1)] Cons by simp
    ultimately show ?thesis by simp
  qed
qed

lemma starts_with_prefix_long:
  "length p \<le> length a \<Longrightarrow> starts_with (a @ b) p = starts_with a p"
  by (simp add: starts_with_def)

lemma block_match_skip:
  "\<not> includes_str (pre @ butlast fence_open) fence_open \<Longrightarrow>
   block_match (pre @ fence_open @ rest) = block_match (fence_open @ rest)"
proof (induction pre)
  case Nil
  then show ?case by simp
next
  case (Cons c cs)
  have split: "(c # cs) @ fence_open @ rest
      = ((c # cs) @ butlast fence_open) @ ([last fence_open] @ rest)"
    by (simp add: fence_open_def)
  have "length fence_open \<le> length ((c # cs) @ butlast fence_open)"
    by (simp add: fence_open_def)
  then have "starts_with ((c # cs) @ fence_open @ rest) fence_open
      = starts_with ((c # cs) @ butlast fence_open) fence_open"
    unfolding split by (rule starts_with_prefix_long)
  moreover from Cons.prems have "\<not> starts_with ((c # cs) @ butlast fence_open) fence_open"
    and "\<not> includes_str (cs @ butlast fence_open) fence_open"
    by simp_all
  ultimately show ?case
    using Cons.IH by simp
qed

lemma block_match_fence:
  "lazy_capture rest = Some m \<Longrightarrow> block_match (fence_open @ rest) = Some m"
  by (simp add: fence_open_def starts_with_def)

lemma block_match_report:
  assumes "\<not> includes_str (pre @ butlast fence_open) fence_open"
    and "nl_ok body" and "body \<noteq> []"
  shows "block_match (pre @ fence_open @ body @ fence_close @ tail) = Some body"
  using assms by (simp add: block_match_skip block_match_fence lazy_capture_body)

lemma hex_lower_not_newline: "hex_lower n \<noteq> CHR 0x0A"
proof -
  have "hex_lower n \<in> set ''0123456789abcdef''"
    unfolding hex_lower_def by (rule nth_mem) simp
  then show ?thesis by auto
qed

lemma escape_char_no_newline: "CHR 0x0A \<notin> set (escape_char c)"
  by (simp add: escape_char_def hex_lower_not_newline hex_lower_not_newline [THEN not_sym])

lemma quote_no_newline: "CHR 0x0A \<notin> set (quote s)"
  using escape_char_no_newline by (auto simp: quote_def)

lemma nl_ok_quote: "nl_ok (quote s)"
  by (rule no_newline_nl_ok) (rule quote_no_newline)

lemma nl_ok_indent: "nl_ok (newline_indent (Suc n))"
  by (simp add: newline_indent_def) (rule no_newline_nl_ok, simp)

lemma nl_ok_close: "c = CHR '']'' \<or> c = CHR ''}'' \<Longrightarrow> nl_ok (newline_indent n @ [c])"
proof (cases n)
  case 0
  assume "c = CHR '']'' \<or> c = CHR ''}''"
  with 0 show ?thesis by (auto simp: newline_indent_def)
next
  case (Suc m)
  assume "c = CHR '']'' \<or> c = CHR ''}''"
  then have "nl_ok [c]" by auto
  with nl_ok_indent [of m] show ?thesis
    unfolding Suc by (rule nl_ok_append)
qed

lemma nl_ok_join:
  "\<forall>x\<in>set xs. nl_ok x \<Longrightarrow> nl_ok (join_lines (Suc n) xs)"
proof (induction "Suc n" xs rule: join_lines.induct)
  case 1
  then show ?case by simp
next
  case (2 x)
  then show ?case by simp
next
  case (3 x y ys)
  from 3 have rest: "nl_ok (join_lines (Suc n) (y # ys))" and x: "nl_ok x"
    by simp_all
  have comma: "nl_ok '',''" by simp
  have "nl_ok (newline_indent (Suc n) @ join_lines (Suc n) (y # ys))"
    using nl_ok_indent rest by (rule nl_ok_append)
  with comma have "nl_ok ('','' @ newline_indent (Suc n) @ join_lines (Suc n) (y # ys))"
    by (rule nl_ok_append)
  with x have "nl_ok (x @ '','' @ newline_indent (Suc n) @ join_lines (Suc n) (y # ys))"
    by (rule nl_ok_append)
  then show ?case by simp
qed

lemma nl_ok_bracketed:
  assumes "nl_ok [a]" and "nl_ok body" and "c = CHR '']'' \<or> c = CHR ''}''"
  shows "nl_ok ([a] @ newline_indent (Suc n) @ body @ newline_indent ind @ [c])"
proof -
  have "nl_ok (body @ newline_indent ind @ [c])"
    using assms(2) nl_ok_close [OF assms(3)] by (rule nl_ok_append)
  with nl_ok_indent have "nl_ok (newline_indent (Suc n) @ body @ newline_indent ind @ [c])"
    by (rule nl_ok_append)
  with assms(1) show ?thesis
    by (rule nl_ok_append)
qed

lemma nl_ok_stringify: "no_num v \<Longrightarrow> nl_ok (stringify ind v)"
proof (induction v arbitrary: ind)
  case JNull
  then show ?case by simp
next
  case (JBool b)
  then show ?case by simp
next
  case (JNum l)
  then show ?case by simp
next
  case (JStr s)
  then show ?case by (simp add: nl_ok_quote)
next
  case (JArr vs)
  show ?case
  proof (cases "vs = []")
    case True
    then show ?thesis by simp
  next
    case False
    have elems: "\<forall>x\<in>set (map (stringify (Suc (Suc ind))) vs). nl_ok x"
      using JArr by (auto simp: list_all_iff)
    have c: "nl_ok (join_lines (Suc (Suc ind)) (map (stringify (Suc (Suc ind))) vs))"
      using elems by (rule nl_ok_join)
    have "nl_ok (''['' @ newline_indent (Suc (Suc ind))
        @ join_lines (Suc (Suc ind)) (map (stringify (Suc (Suc ind))) vs)
        @ newline_indent ind @ '']'')"
      using c by (intro nl_ok_bracketed) simp_all
    with False show ?thesis by simp
  qed
next
  case (JObj ms)
  show ?case
  proof (cases "ms = []")
    case True
    then show ?thesis by simp
  next
    case False
    have member: "nl_ok (quote k @ '': '' @ stringify (Suc (Suc ind)) v)"
      if "(k, v) \<in> set ms" for k v
    proof -
      from that JObj.prems have "no_num v"
        by (auto simp: list_all_iff)
      with JObj.IH that have "nl_ok (stringify (Suc (Suc ind)) v)"
        by fastforce
      moreover have "nl_ok '': ''" by simp
      ultimately have "nl_ok ('': '' @ stringify (Suc (Suc ind)) v)"
        by (intro nl_ok_append)
      with nl_ok_quote [of k] show ?thesis
        by (rule nl_ok_append)
    qed
    then have elems: "\<forall>x\<in>set (map (\<lambda>(k, v). quote k @ '': '' @ stringify (Suc (Suc ind)) v) ms).
        nl_ok x"
      by auto
    have c: "nl_ok (join_lines (Suc (Suc ind))
        (map (\<lambda>(k, v). quote k @ '': '' @ stringify (Suc (Suc ind)) v) ms))"
      using elems by (rule nl_ok_join)
    have "nl_ok (''{'' @ newline_indent (Suc (Suc ind))
        @ join_lines (Suc (Suc ind))
            (map (\<lambda>(k, v). quote k @ '': '' @ stringify (Suc (Suc ind)) v) ms)
        @ newline_indent ind @ ''}'')"
      using c by (intro nl_ok_bracketed) simp_all
    with False show ?thesis by simp
  qed
qed

lemma stringify_nonempty: "no_num v \<Longrightarrow> stringify ind v \<noteq> []"
  by (cases v) (simp_all add: quote_def)
section \<open>Printing and parsing JSON\<close>

lemma length_skip_ws: "length (skip_ws s) \<le> length s"
  by (simp add: skip_ws_def length_dropWhile_le)

lemma skip_ws_Cons_length: "skip_ws s = c # cs \<Longrightarrow> length cs < length s"
  using length_skip_ws [of s] by simp

lemma cons_unit_Some:
  "cons_unit u x = Some (us, r) \<Longrightarrow> \<exists>us'. x = Some (us', r)"
  by (auto simp: cons_unit_def split: option.splits)

lemma str_items_shorter: "str_items s = Some (us, r) \<Longrightarrow> length r < length s"
proof (induction s arbitrary: us rule: str_items.induct)
  case 1
  then show ?case by simp
next
  case (2 c cs)
  show ?case
  proof (cases "c = CHR 0x22")
    case True
    with "2.prems" show ?thesis by (simp add: str_items.simps)
  next
    case nq: False
    show ?thesis
    proof (cases "c = CHR 0x5C")
      case True
      with nq "2.prems" obtain e r0 where cs: "cs = e # r0"
        by (cases cs) (auto simp: str_items.simps)
      show ?thesis
      proof (cases "e = CHR ''u''")
        case u: True
        with nq True cs "2.prems" obtain h us' where h: "hex4 (take 4 r0) = Some h"
          and rec: "str_items (drop 4 r0) = Some (us', r)"
          by (auto simp: str_items.simps split: option.splits dest: cons_unit_Some)
        from "2.IH"(1) [OF nq True cs u h rec] show ?thesis
          using cs by simp
      next
        case nu: False
        with nq True cs "2.prems" obtain ch us' where ch: "simple_escape e = Some ch"
          and rec: "str_items r0 = Some (us', r)"
          by (auto simp: str_items.simps split: option.splits dest: cons_unit_Some)
        from "2.IH"(2) [OF nq True cs nu ch rec] show ?thesis
          using cs by simp
      qed
    next
      case nb: False
      with nq "2.prems" have ge: "\<not> (of_char c :: nat) < 32"
        and "\<exists>us'. str_items cs = Some (us', r)"
        by (auto simp: str_items.simps split: if_splits dest: cons_unit_Some)
      then obtain us' where rec: "str_items cs = Some (us', r)" by blast
      from "2.IH"(3) [OF nq nb ge rec] show ?thesis by simp
    qed
  qed
qed

lemma string_lit_shorter: "string_lit s = Some (str, r) \<Longrightarrow> length r < length s"
  by (auto simp: string_lit_def split: option.splits dest: str_items_shorter)

lemma lex_int_shorter: "lex_int s = Some (l, r) \<Longrightarrow> length r < length s"
  using length_dropWhile_le [of is_digit "tl s"]
  by (auto simp: lex_int_def split: list.splits if_splits)

lemma lex_frac_shorter: "lex_frac s = Some (l, r) \<Longrightarrow> length r \<le> length s"
  using length_dropWhile_le [of is_digit "tl s"]
  by (auto simp: lex_frac_def split: list.splits if_splits)

lemma lex_exp_shorter: "lex_exp s = Some (l, r) \<Longrightarrow> length r \<le> length s"
proof -
  assume a: "lex_exp s = Some (l, r)"
  have d: "length (dropWhile is_digit x) \<le> length x" for x :: string
    by (rule length_dropWhile_le)
  from a show ?thesis
    using d [of "tl s"] d [of "tl (tl s)"]
    by (auto simp: lex_exp_def Let_def split: list.splits if_splits prod.splits)
qed

lemma lex_number_shorter: "lex_number s = Some (l, r) \<Longrightarrow> length r < length s"
proof -
  assume a: "lex_number s = Some (l, r)"
  obtain sg s1 where sg: "lex_sign s = (sg, s1)" by (cases "lex_sign s")
  then have l1: "length s1 \<le> length s"
    by (auto simp: lex_sign_def split: list.splits if_splits)
  from a sg obtain ip s2 fp s3 ep where
    "lex_int s1 = Some (ip, s2)" "lex_frac s2 = Some (fp, s3)" "lex_exp s3 = Some (ep, r)"
    by (auto simp: lex_number_def split: option.splits)
  with l1 show ?thesis
    using lex_int_shorter lex_frac_shorter lex_exp_shorter by fastforce
qed

lemma parse_atom_shorter: "parse_atom s = Some (v, r) \<Longrightarrow> length r < length s"
  by (auto simp: parse_atom_def starts_with_def split: list.splits if_splits option.splits
      dest: string_lit_shorter lex_number_shorter)


lemma parse_shorter:
  shows "parse_value s = Some (v, r) \<Longrightarrow> length r < length s"
    and "parse_elems s = Some (vs, r) \<Longrightarrow> length r < length s"
    and "parse_members s = Some (ms, r) \<Longrightarrow> length r < length s"
proof (induction s and s and s arbitrary: v r and vs r and ms r
    rule: parse_value_parse_elems_parse_members.induct)
  case (1 s)
  from "1.prems" obtain c cs where sk: "skip_ws s = c # cs"
    by (subst (asm) parse_value.simps) (auto split: list.splits)
  then have lcs: "length cs < length s"
    by (rule skip_ws_Cons_length)
  show ?case
  proof (cases "c = CHR ''[''")
    case True
    with sk "1.prems" obtain d ds where sk2: "skip_ws cs = d # ds"
      by (subst (asm) parse_value.simps) (auto split: list.splits)
    then have lds: "length ds < length cs"
      by (rule skip_ws_Cons_length)
    show ?thesis
    proof (cases "d = CHR '']''")
      case close: True
      with True sk sk2 "1.prems" have "r = ds"
        by (subst (asm) parse_value.simps) simp
      with lds lcs show ?thesis by simp
    next
      case False
      with True sk sk2 "1.prems" obtain vs where "parse_elems cs = Some (vs, r)"
        by (subst (asm) parse_value.simps) (auto split: option.splits)
      from "1.IH"(1) [OF sk True sk2 False this] lcs show ?thesis by simp
    qed
  next
    case nb: False
    show ?thesis
    proof (cases "c = CHR ''{''")
      case True
      with nb sk "1.prems" obtain d ds where sk2: "skip_ws cs = d # ds"
        by (subst (asm) parse_value.simps) (auto split: list.splits)
      then have lds: "length ds < length cs"
        by (rule skip_ws_Cons_length)
      show ?thesis
      proof (cases "d = CHR ''}''")
        case close: True
        with nb True sk sk2 "1.prems" have "r = ds"
          by (subst (asm) parse_value.simps) simp
        with lds lcs show ?thesis by simp
      next
        case False
        with nb True sk sk2 "1.prems" obtain ms where "parse_members cs = Some (ms, r)"
          by (subst (asm) parse_value.simps) (auto split: option.splits)
        from "1.IH"(2) [OF sk nb True sk2 False this] lcs show ?thesis by simp
      qed
    next
      case False
      with nb sk "1.prems" have "parse_atom (c # cs) = Some (v, r)"
        by (subst (asm) parse_value.simps) simp
      from parse_atom_shorter [OF this] sk length_skip_ws [of s] show ?thesis by simp
    qed
  qed
next
  case (2 s)
  from "2.prems" obtain v r0 where pv: "parse_value s = Some (v, r0)"
    by (subst (asm) parse_elems.simps) (auto split: option.splits)
  from "2.IH"(1) [OF this] have l0: "length r0 < length s" .
  from pv "2.prems" obtain d ds where sk: "skip_ws r0 = d # ds"
    by (subst (asm) parse_elems.simps) (auto split: list.splits)
  then have lds: "length ds < length r0"
    by (rule skip_ws_Cons_length)
  show ?case
  proof (cases "d = CHR '',''")
    case True
    with pv sk "2.prems" obtain vs' where g: "length ds < length s"
      and rec: "parse_elems ds = Some (vs', r)"
      by (subst (asm) parse_elems.simps) (auto split: option.splits if_splits)
    from "2.IH"(2) [OF pv refl sk True g rec] g show ?thesis by simp
  next
    case False
    with pv sk "2.prems" have "r = ds"
      by (subst (asm) parse_elems.simps) (auto split: if_splits)
    with lds l0 show ?thesis by simp
  qed
next
  case (3 s)
  from "3.prems" obtain q cs where sk: "skip_ws s = q # cs" and q: "q = CHR 0x22"
    by (subst (asm) parse_members.simps) (auto split: list.splits if_splits)
  from sk q "3.prems" obtain k r0 where key: "string_lit cs = Some (k, r0)"
    by (subst (asm) parse_members.simps) (auto split: option.splits)
  from sk q key "3.prems" obtain col r1 where sk1: "skip_ws r0 = col # r1"
    by (subst (asm) parse_members.simps) (auto split: list.splits)
  from sk q key sk1 "3.prems" have g1: "col = CHR '':'' \<and> length r1 < length s"
    by (subst (asm) parse_members.simps) (auto split: if_splits)
  from sk q key sk1 g1 "3.prems" obtain v r2 where pv: "parse_value r1 = Some (v, r2)"
    by (subst (asm) parse_members.simps) (auto split: option.splits)
  from "3.IH"(1) [OF sk q key refl sk1 g1 pv] have l2: "length r2 < length r1" .
  from sk q key sk1 g1 pv "3.prems" obtain d ds where sk2: "skip_ws r2 = d # ds"
    by (subst (asm) parse_members.simps) (auto split: list.splits)
  then have lds: "length ds < length r2"
    by (rule skip_ws_Cons_length)
  show ?case
  proof (cases "d = CHR '',''")
    case True
    with sk q key sk1 g1 pv sk2 "3.prems" obtain ms' where g: "length ds < length s"
      and rec: "parse_members ds = Some (ms', r)"
      by (subst (asm) parse_members.simps) (auto split: option.splits if_splits)
    from "3.IH"(2) [OF sk q key refl sk1 g1 pv refl sk2 True g rec] g show ?thesis by simp
  next
    case False
    with sk q key sk1 g1 pv sk2 "3.prems" have "r = ds"
      by (subst (asm) parse_members.simps) (auto split: if_splits)
    with lds l2 g1 show ?thesis by simp
  qed
qed

text \<open>
  The guards in \<open>parse_elems\<close> and \<open>parse_members\<close> never fail: what is left after a
  value, a separator included, is shorter than the text the function started from.
\<close>

lemma parse_elems_guard:
  assumes "parse_value s = Some (v, r)" and "skip_ws r = d # ds"
  shows "length ds < length s"
  using parse_shorter(1) [OF assms(1)] skip_ws_Cons_length [OF assms(2)] by simp

lemma parse_members_guard:
  assumes "skip_ws s = q # cs" and "string_lit cs = Some (k, r)" and "skip_ws r = col # r1"
    and "parse_value r1 = Some (v, r2)" and "skip_ws r2 = d # ds"
  shows "length r1 < length s \<and> length ds < length s"
  using skip_ws_Cons_length [OF assms(1)] string_lit_shorter [OF assms(2)]
    skip_ws_Cons_length [OF assms(3)] parse_shorter(1) [OF assms(4)]
    skip_ws_Cons_length [OF assms(5)]
  by simp

lemma str_items_raw:
  "c \<noteq> CHR 0x22 \<Longrightarrow> c \<noteq> CHR 0x5C \<Longrightarrow> \<not> (of_char c :: nat) < 32 \<Longrightarrow>
   str_items (c # X) = cons_unit (Raw c) (str_items X)"
  by (simp add: str_items.simps)

lemma str_items_simple:
  "simple_escape e = Some ch \<Longrightarrow> e \<noteq> CHR ''u'' \<Longrightarrow>
   str_items (CHR 0x5C # e # X) = cons_unit (Raw ch) (str_items X)"
  by (simp add: str_items.simps)

lemma str_items_u:
  "hex4 [a, b, c, d] = Some u \<Longrightarrow>
   str_items (CHR 0x5C # CHR ''u'' # a # b # c # d # X) = cons_unit (Esc u) (str_items X)"
  by (simp add: str_items.simps)


lemma hex_val_lower: "n < 16 \<Longrightarrow> hex_val (hex_lower n) = Some n"
proof -
  assume "n < 16"
  then have "n \<in> set [0..<16]" by simp
  also have "[0..<16] = [0, 1, 2, 3, 4, 5, 6, 7, 8, 9, 10, 11, 12, 13, 14, 15]"
    by (simp add: upt_conv_Cons)
  finally show ?thesis
    by (auto simp: hex_val_def hex_lower_def)
qed

lemma hex4_control:
  assumes "n < 32"
  shows "hex4 [CHR ''0'', CHR ''0'', hex_lower (n div 16), hex_lower (n mod 16)] = Some n"
proof -
  have z: "hex_val (CHR ''0'') = Some 0"
    by (simp add: hex_val_def)
  from assms have "n div 16 < 16" "n mod 16 < 16" by simp_all
  then show ?thesis
    by (simp add: hex4_def z hex_val_lower)
qed


lemma escape_step:
  "str_items (escape_char c @ X) = cons_unit (unit_of c) (str_items X)"
proof -
  consider (quote) "c = CHR 0x22" | (backslash) "c = CHR 0x5C" | (b) "c = CHR 0x08"
    | (f) "c = CHR 0x0C" | (n) "c = CHR 0x0A" | (r) "c = CHR 0x0D" | (t) "c = CHR 0x09"
    | (control) "(of_char c :: nat) < 32" "c \<noteq> CHR 0x08" "c \<noteq> CHR 0x0C" "c \<noteq> CHR 0x0A"
        "c \<noteq> CHR 0x0D" "c \<noteq> CHR 0x09"
    | (raw) "\<not> (of_char c :: nat) < 32" "c \<noteq> CHR 0x22" "c \<noteq> CHR 0x5C"
    by blast
  then show ?thesis
  proof cases
    case quote
    then show ?thesis
      by (simp add: escape_char_def unit_of_def str_items_simple simple_escape_def)
  next
    case backslash
    then show ?thesis
      by (simp add: escape_char_def unit_of_def str_items_simple simple_escape_def)
  next
    case b
    then show ?thesis
      by (simp add: escape_char_def unit_of_def str_items_simple simple_escape_def)
  next
    case f
    then show ?thesis
      by (simp add: escape_char_def unit_of_def str_items_simple simple_escape_def)
  next
    case n
    then show ?thesis
      by (simp add: escape_char_def unit_of_def str_items_simple simple_escape_def)
  next
    case r
    then show ?thesis
      by (simp add: escape_char_def unit_of_def str_items_simple simple_escape_def)
  next
    case t
    then show ?thesis
      by (simp add: escape_char_def unit_of_def str_items_simple simple_escape_def)
  next
    case control
    from control(1) have ne: "c \<noteq> CHR 0x22" "c \<noteq> CHR 0x5C" by auto
    have esc: "escape_char c = [CHR 0x5C, CHR ''u'', CHR ''0'', CHR ''0'',
         hex_lower (of_char c div 16), hex_lower (of_char c mod 16)]"
      using control ne by (simp add: escape_char_def)
    have u: "unit_of c = Esc (of_char c)"
      using control by (simp add: unit_of_def)
    show ?thesis
      unfolding esc u using hex4_control [OF control(1)] by (simp add: str_items_u)
  next
    case raw
    then have "escape_char c = [c]" and "unit_of c = Raw c"
      by (auto simp: escape_char_def unit_of_def)
    with raw show ?thesis
      by (simp add: str_items_raw)
  qed
qed

lemma str_items_escaped:
  "str_items (concat (map escape_char s) @ CHR 0x22 # rest) = Some (map unit_of s, rest)"
proof (induction s)
  case Nil
  then show ?case by (simp add: str_items.simps)
next
  case (Cons c s)
  then show ?case
    by (simp add: escape_step cons_unit_def)
qed

lemma utf8_ascii: "u < 128 \<Longrightarrow> utf8 u = [char_of u]"
  by (simp add: utf8_def)

lemma decode_units_small:
  "u < 128 \<Longrightarrow> decode_units (Esc u # us) = char_of u # decode_units us"
proof (cases us)
  case Nil
  assume "u < 128"
  with Nil show ?thesis by (simp add: utf8_ascii)
next
  case (Cons a as)
  assume "u < 128"
  with Cons show ?thesis by (cases a) (simp_all add: utf8_ascii)
qed

lemma decode_units_back: "decode_units (map unit_of s) = s"
proof (induction s)
  case Nil
  then show ?case by simp
next
  case (Cons c s)
  show ?case
  proof (cases "unit_of c")
    case (Raw d)
    then have "d = c" by (simp add: unit_of_def split: if_splits)
    with Raw Cons.IH show ?thesis by simp
  next
    case (Esc u)
    then have u: "u = of_char c" "u < 32" by (simp_all add: unit_of_def split: if_splits)
    then have "decode_units (Esc u # map unit_of s) = char_of u # decode_units (map unit_of s)"
      by (intro decode_units_small) simp
    with Esc u Cons.IH show ?thesis by simp
  qed
qed

lemma string_lit_quoted:
  "string_lit (concat (map escape_char s) @ CHR 0x22 # rest) = Some (s, rest)"
  by (simp add: string_lit_def str_items_escaped decode_units_back)

lemma skip_ws_indent: "skip_ws (newline_indent k @ x) = skip_ws x"
  by (simp add: skip_ws_def newline_indent_def is_ws_def dropWhile_append)

lemma skip_ws_space: "skip_ws (CHR 0x20 # x) = skip_ws x"
  by (simp add: skip_ws_def is_ws_def)

lemma skip_ws_idem: "skip_ws (skip_ws s) = skip_ws s"
  by (simp add: skip_ws_def dropWhile_idem)

lemma skip_ws_head: "\<not> is_ws c \<Longrightarrow> skip_ws (c # cs) = c # cs"
  by (simp add: skip_ws_def)

lemma parse_value_skip_ws: "parse_value (skip_ws s) = parse_value s"
  by (subst (1 2) parse_value.simps) (simp add: skip_ws_idem)

lemma parse_value_indent: "parse_value (newline_indent k @ x) = parse_value x"
  using parse_value_skip_ws [of "newline_indent k @ x"] parse_value_skip_ws [of x]
  by (simp add: skip_ws_indent)

lemma parse_value_space: "parse_value (CHR 0x20 # x) = parse_value x"
  using parse_value_skip_ws [of "CHR 0x20 # x"] parse_value_skip_ws [of x]
  by (simp add: skip_ws_space)

lemma stringify_head:
  "no_num v \<Longrightarrow> \<exists>c cs. stringify ind v = c # cs \<and> opens_value c"
  by (cases v) (auto simp: opens_value_def quote_def)

lemma opens_value_facts:
  "opens_value c \<Longrightarrow> \<not> is_ws c \<and> c \<noteq> CHR '']'' \<and> c \<noteq> CHR ''}''"
  by (auto simp: opens_value_def is_ws_def)

lemma parse_null: "parse_value (''null'' @ rest) = Some (JNull, rest)"
  by (subst parse_value.simps)
     (simp add: skip_ws_def is_ws_def parse_atom_def starts_with_def)

lemma parse_true: "parse_value (''true'' @ rest) = Some (JBool True, rest)"
  by (subst parse_value.simps)
     (simp add: skip_ws_def is_ws_def parse_atom_def starts_with_def)

lemma parse_false: "parse_value (''false'' @ rest) = Some (JBool False, rest)"
  by (subst parse_value.simps)
     (simp add: skip_ws_def is_ws_def parse_atom_def starts_with_def)

lemma parse_quoted: "parse_value (quote s @ rest) = Some (JStr s, rest)"
  by (subst parse_value.simps)
     (simp add: quote_def skip_ws_def is_ws_def parse_atom_def string_lit_quoted)

lemma parse_empty_array: "parse_value (''[]'' @ rest) = Some (JArr [], rest)"
  by (subst parse_value.simps) (simp add: skip_ws_def is_ws_def)

lemma parse_empty_object: "parse_value (''{}'' @ rest) = Some (JObj [], rest)"
  by (subst parse_value.simps) (simp add: skip_ws_def is_ws_def)

lemma join_lines_head: "\<exists>suf. join_lines k (x # xs) = x @ suf"
  by (cases xs) simp_all

lemma parse_elems_printed:
  "(\<forall>v\<in>set vs. \<forall>i r. parse_value (stringify i v @ r) = Some (v, r)) \<Longrightarrow> vs \<noteq> [] \<Longrightarrow>
   parse_elems (newline_indent k @ join_lines k (map (stringify k) vs)
                @ newline_indent ind @ CHR '']'' # rest) = Some (vs, rest)"
proof (induction vs)
  case Nil
  then show ?case by simp
next
  case (Cons v vs)
  let ?close = "newline_indent ind @ CHR '']'' # rest"
  from Cons.prems(1) have pv: "\<And>r. parse_value (stringify k v @ r) = Some (v, r)"
    by simp
  show ?case
  proof (cases vs)
    case Nil
    have "parse_value (newline_indent k @ stringify k v @ ?close) = Some (v, ?close)"
      by (simp add: parse_value_indent pv)
    moreover have "skip_ws ?close = CHR '']'' # rest"
      by (simp add: skip_ws_indent skip_ws_head is_ws_def)
    ultimately show ?thesis
      unfolding Nil by (subst parse_elems.simps) simp
  next
    case (Cons w ws)
    let ?ds = "newline_indent k @ join_lines k (map (stringify k) (w # ws)) @ ?close"
    let ?s = "newline_indent k @ stringify k v @ CHR '','' # ?ds"
    have s: "newline_indent k @ join_lines k (map (stringify k) (v # vs)) @ ?close = ?s"
      unfolding Cons by simp
    have a: "parse_value ?s = Some (v, CHR '','' # ?ds)"
      by (simp add: parse_value_indent pv)
    have b: "skip_ws (CHR '','' # ?ds) = CHR '','' # ?ds"
      by (simp add: skip_ws_head is_ws_def)
    have c: "length ?ds < length ?s"
      by simp
    have d: "parse_elems ?ds = Some (w # ws, rest)"
      using Cons.IH Cons.prems(1) unfolding Cons by simp
    show ?thesis
      unfolding s using a b c d
      by (subst parse_elems.simps) (simp add: Cons del: join_lines.simps list.map)
  qed
qed


lemma parse_members_printed:
  "(\<forall>(key, v)\<in>set ms. \<forall>i r. parse_value (stringify i v @ r) = Some (v, r)) \<Longrightarrow> ms \<noteq> [] \<Longrightarrow>
   parse_members (newline_indent k
                  @ join_lines k (map (\<lambda>(key, v). quote key @ '': '' @ stringify k v) ms)
                  @ newline_indent ind @ CHR ''}'' # rest) = Some (ms, rest)"
proof (induction ms)
  case Nil
  then show ?case by simp
next
  case (Cons m ms)
  obtain key v where m: "m = (key, v)" by (cases m)
  let ?close = "newline_indent ind @ CHR ''}'' # rest"
  let ?member = "\<lambda>(key, v). quote key @ '': '' @ stringify k v"
  let ?esc = "concat (map escape_char key)"
  from Cons.prems(1) m have pv: "\<And>r. parse_value (stringify k v @ r) = Some (v, r)"
    by simp
  have head: "skip_ws (newline_indent k @ quote key @ x) = CHR 0x22 # ?esc @ CHR 0x22 # x" for x
    by (simp add: skip_ws_indent quote_def skip_ws_head is_ws_def)
  have key: "string_lit (?esc @ CHR 0x22 # x) = Some (key, x)" for x
    by (rule string_lit_quoted)
  have colon: "skip_ws (CHR '':'' # x) = CHR '':'' # x" for x
    by (simp add: skip_ws_head is_ws_def)
  show ?case
  proof (cases ms)
    case Nil
    let ?s = "newline_indent k @ quote key @ CHR '':'' # CHR 0x20 # stringify k v @ ?close"
    have s: "newline_indent k @ join_lines k (map ?member (m # ms)) @ ?close = ?s"
      unfolding Nil m by simp
    have val: "parse_value (CHR 0x20 # stringify k v @ ?close) = Some (v, ?close)"
      by (simp add: parse_value_space pv)
    have close: "skip_ws ?close = CHR ''}'' # rest"
      by (simp add: skip_ws_indent skip_ws_head is_ws_def)
    have len: "length (CHR 0x20 # stringify k v @ ?close) < length ?s"
      by simp
    show ?thesis
      unfolding s using val close len
      by (subst parse_members.simps) (simp add: head key colon Nil m)
  next
    case (Cons w ws)
    let ?ds = "newline_indent k @ join_lines k (map ?member (w # ws)) @ ?close"
    let ?s = "newline_indent k @ quote key @ CHR '':'' # CHR 0x20 # stringify k v
        @ CHR '','' # ?ds"
    have s: "newline_indent k @ join_lines k (map ?member (m # ms)) @ ?close = ?s"
      unfolding Cons m by simp
    have val: "parse_value (CHR 0x20 # stringify k v @ CHR '','' # ?ds) = Some (v, CHR '','' # ?ds)"
      by (simp add: parse_value_space pv)
    have comma: "skip_ws (CHR '','' # ?ds) = CHR '','' # ?ds"
      by (simp add: skip_ws_head is_ws_def)
    have len1: "length (CHR 0x20 # stringify k v @ CHR '','' # ?ds) < length ?s"
      by simp
    have len2: "length ?ds < length ?s"
      by simp
    have rest: "parse_members ?ds = Some (w # ws, rest)"
      using Cons.IH Cons.prems(1) unfolding Cons by simp
    show ?thesis
      unfolding s using val comma len1 len2 rest
      by (subst parse_members.simps)
         (simp add: head key colon Cons m del: join_lines.simps list.map)
  qed
qed

lemma parse_stringify:
  "no_num v \<Longrightarrow> parse_value (stringify ind v @ rest) = Some (v, rest)"
proof (induction v arbitrary: ind rest)
  case JNull
  show ?case using parse_null by simp
next
  case (JBool b)
  show ?case using parse_true parse_false by (cases b) simp_all
next
  case (JNum l)
  then show ?case by simp
next
  case (JStr s)
  show ?case using parse_quoted by simp
next
  case (JArr vs)
  show ?case
  proof (cases vs)
    case Nil
    then show ?thesis using parse_empty_array by simp
  next
    case (Cons x xs)
    let ?k = "Suc (Suc ind)"
    let ?cs = "newline_indent ?k @ join_lines ?k (map (stringify ?k) vs)
        @ newline_indent ind @ CHR '']'' # rest"
    have printed: "stringify ind (JArr vs) @ rest = CHR ''['' # ?cs"
      using Cons by simp
    have all: "\<forall>v\<in>set vs. \<forall>i r. parse_value (stringify i v @ r) = Some (v, r)"
      using JArr by (auto simp: list_all_iff)
    have elems: "parse_elems ?cs = Some (vs, rest)"
      using all Cons by (intro parse_elems_printed) simp_all
    from JArr.prems Cons have "no_num x" by simp
    from stringify_head [OF this, of ?k] obtain c cs'
      where hd: "stringify ?k x = c # cs'" and op: "opens_value c" by blast
    from join_lines_head [of ?k "stringify ?k x" "map (stringify ?k) xs"]
    obtain suf where "join_lines ?k (map (stringify ?k) vs) = stringify ?k x @ suf"
      unfolding Cons by auto
    then have first: "skip_ws ?cs = c # cs' @ suf @ newline_indent ind @ CHR '']'' # rest"
      using hd opens_value_facts [OF op] by (simp add: skip_ws_indent skip_ws_head)
    show ?thesis
      unfolding printed using elems first opens_value_facts [OF op]
      by (subst parse_value.simps) (simp add: skip_ws_head is_ws_def)
  qed
next
  case (JObj ms)
  show ?case
  proof (cases ms)
    case Nil
    then show ?thesis using parse_empty_object by simp
  next
    case (Cons m xs)
    let ?k = "Suc (Suc ind)"
    let ?cs = "newline_indent ?k
        @ join_lines ?k (map (\<lambda>(key, v). quote key @ '': '' @ stringify ?k v) ms)
        @ newline_indent ind @ CHR ''}'' # rest"
    have printed: "stringify ind (JObj ms) @ rest = CHR ''{'' # ?cs"
      using Cons by simp
    have all: "\<forall>(key, v)\<in>set ms. \<forall>i r. parse_value (stringify i v @ r) = Some (v, r)"
    proof (clarify)
      fix key v i r
      assume mem: "(key, v) \<in> set ms"
      with JObj.prems have "no_num v" by (auto simp: list_all_iff)
      with JObj.IH mem show "parse_value (stringify i v @ r) = Some (v, r)"
        by fastforce
    qed
    have members: "parse_members ?cs = Some (ms, rest)"
      using all Cons by (intro parse_members_printed) simp_all
    obtain key v where m: "m = (key, v)" by (cases m)
    from join_lines_head [of ?k "quote key @ '': '' @ stringify ?k v"
        "map (\<lambda>(key, v). quote key @ '': '' @ stringify ?k v) xs"]
    obtain suf where "join_lines ?k (map (\<lambda>(key, v). quote key @ '': '' @ stringify ?k v) ms)
        = (quote key @ '': '' @ stringify ?k v) @ suf"
      unfolding Cons m by auto
    then have first: "skip_ws ?cs = CHR 0x22 # concat (map escape_char key) @ CHR 0x22
        # '': '' @ stringify ?k v @ suf @ newline_indent ind @ CHR ''}'' # rest"
      by (simp add: skip_ws_indent skip_ws_head quote_def is_ws_def)
    show ?thesis
      unfolding printed using members first
      by (subst parse_value.simps) (simp add: skip_ws_head is_ws_def)
  qed
qed

lemma JSON_parse_stringify: "no_num v \<Longrightarrow> JSON_parse (stringify ind v) = Some v"
  using parse_stringify [of v ind "[]"] by (simp add: JSON_parse_def skip_ws_def)

lemma no_num_history: "no_num (json_of_history h)"
  by (auto simp: json_of_history_def json_of_day_def json_of_result_def list_all_iff
      split: option.splits)
section \<open>Reading the history back\<close>

lemma load_history_report:
  assumes "\<not> includes_str (pre @ butlast fence_open) fence_open"
    and "nl_ok body" and "body \<noteq> []"
  shows "load_history (Some (pre @ fence_open @ body @ fence_close @ tail)) =
     (case JSON_parse body of None \<Rightarrow> JArr [] | Some v \<Rightarrow> v)"
  using block_match_report [OF assms] by (simp add: load_history_def)

text \<open>
  C8 (amended). Let the report be rendered from any text \<open>md\<close> above the history block
  in which the opening fence of the block does not occur (the block's own fence line
  included, up to its line feed), and from any history. Reading the history back from
  the rendered report yields the same records in the same order.
\<close>

theorem C8_history_roundtrip:
  assumes "\<not> includes_str (md @ details_open @ butlast fence_open) fence_open"
  shows "load_history (Some (reportFileContent md (json_of_history h))) = json_of_history h"
proof -
  let ?body = "stringify 0 (json_of_history h)"
  have nn: "no_num (json_of_history h)"
    by (rule no_num_history)
  have shape: "reportFileContent md (json_of_history h)
      = (md @ details_open) @ fence_open @ ?body @ fence_close @ (CHR 0x0A # ''</details>'' @ [CHR 0x0A])"
    by (simp add: reportFileContent_def)
  have "load_history (Some (reportFileContent md (json_of_history h)))
      = (case JSON_parse ?body of None \<Rightarrow> JArr [] | Some v \<Rightarrow> v)"
    unfolding shape using assms nl_ok_stringify [OF nn] stringify_nonempty [OF nn]
    by (intro load_history_report) simp_all
  then show ?thesis
    by (simp add: JSON_parse_stringify [OF nn])
qed

lemma no_fence_example:
  "\<not> includes_str (''# report'' @ details_open @ butlast fence_open) fence_open"
  by (simp add: details_open_def fence_open_def starts_with_def)

theorem C8_history_roundtrip_witness:
  "\<not> includes_str (''# report'' @ details_open @ butlast fence_open) fence_open \<and>
   load_history (Some (reportFileContent ''# report''
     (json_of_history [\<lparr>date = ''2024-01-02'',
        results = [\<lparr>res_name = Some ''a'', res_api = ''u'', success = False,
                    searchStatus = str_disabled\<rparr>]\<rparr>])))
   = json_of_history [\<lparr>date = ''2024-01-02'',
        results = [\<lparr>res_name = Some ''a'', res_api = ''u'', success = False,
                    searchStatus = str_disabled\<rparr>]\<rparr>]"
  using C8_history_roundtrip [OF no_fence_example] no_fence_example by simp

text \<open>
  C8 as stated fails when a rendered field holds a fenced block of its own: with an
  endpoint named as such a block, the report's first block is the one in the table
  row, and the history read back is empty.
\<close>

theorem C8_counterexample:
  "load_history (Some (reportFileContent
     (render_md ''# report''
        [table_row \<lparr>st_status = ''x'', st_name = fence_open @ ''[]'' @ fence_close,
           st_detail = ''-'', st_api = ''u'', st_searchStatus = ''-'', st_ok = ''0'',
           st_fail = ''1'', st_successRate = ''0.0%'', st_trend = ''x''\<rparr>])
     (json_of_history [\<lparr>date = ''2024-01-02'',
        results = [\<lparr>res_name = Some (fence_open @ ''[]'' @ fence_close), res_api = ''u'',
                    success = False, searchStatus = ''-''\<rparr>]\<rparr>])))
   = JArr [] \<and>
   json_of_history [\<lparr>date = ''2024-01-02'',
        results = [\<lparr>res_name = Some (fence_open @ ''[]'' @ fence_close), res_api = ''u'',
                    success = False, searchStatus = ''-''\<rparr>]\<rparr>] \<noteq> JArr []"
proof -
  let ?h = "json_of_history [\<lparr>date = ''2024-01-02'',
        results = [\<lparr>res_name = Some (fence_open @ ''[]'' @ fence_close), res_api = ''u'',
                    success = False, searchStatus = ''-''\<rparr>]\<rparr>]"
  let ?tail = "'' | - | [Link](u) | - | 0 | 1 | 0.0% | x |'' @ [CHR 0x0A] @ details_open
      @ fence_open @ stringify 0 ?h @ fence_close @ [CHR 0x0A] @ ''</details>'' @ [CHR 0x0A]"
  have shape: "reportFileContent
     (render_md ''# report''
        [table_row \<lparr>st_status = ''x'', st_name = fence_open @ ''[]'' @ fence_close,
           st_detail = ''-'', st_api = ''u'', st_searchStatus = ''-'', st_ok = ''0'',
           st_fail = ''1'', st_successRate = ''0.0%'', st_trend = ''x''\<rparr>]) ?h
     = ''# report| x | '' @ fence_open @ ''[]'' @ fence_close @ ?tail"
    by (simp add: reportFileContent_def render_md_def table_row_def)
  have pre: "\<not> includes_str (''# report| x | '' @ butlast fence_open) fence_open"
    by (simp add: fence_open_def starts_with_def)
  have "load_history (Some (''# report| x | '' @ fence_open @ ''[]'' @ fence_close @ ?tail))
      = (case JSON_parse ''[]'' of None \<Rightarrow> JArr [] | Some v \<Rightarrow> v)"
    using pre by (intro load_history_report) simp_all
  also have "\<dots> = JArr []"
    using parse_empty_array [of "[]"] by (simp add: JSON_parse_def skip_ws_def)
  finally show ?thesis
    unfolding shape by (simp add: json_of_history_def)
qed

text \<open>
  C9 (amended). When the report file is absent, or holds no history block, or holds a
  block that is not valid JSON, the run starts with the empty history, to which the
  day's record can be appended.
\<close>

theorem C9_history_start:
  "load_history None = JArr [] \<and>
   (block_match old = None \<longrightarrow> load_history (Some old) = JArr []) \<and>
   (block_match old = Some m \<and> JSON_parse m = None \<longrightarrow> load_history (Some old) = JArr []) \<and>
   push_history (JArr []) d = Inr (JArr [d])"
  by (simp add: load_history_def push_history_def append_history_def MAX_DAYS_def)

lemma no_block_example: "block_match ''# report'' = None"
  by (simp add: fence_open_def starts_with_def)

lemma bad_block_example:
  "block_match (fence_open @ ''{broken'' @ fence_close) = Some ''{broken''"
  using block_match_report [of "[]" "''{broken''" "[]"]
  by (simp add: fence_open_def starts_with_def)

lemma bad_json_example: "JSON_parse ''{broken'' = None"
  by (simp add: JSON_parse_def parse_value.simps parse_members.simps skip_ws_def is_ws_def)

theorem C9_history_start_witness:
  "block_match ''# report'' = None \<and>
   load_history (Some ''# report'') = JArr [] \<and>
   block_match (fence_open @ ''{broken'' @ fence_close) = Some ''{broken'' \<and>
   JSON_parse ''{broken'' = None \<and>
   load_history (Some (fence_open @ ''{broken'' @ fence_close)) = JArr []"
  using C9_history_start [of "''# report''" "[]" JNull]
    C9_history_start [of "fence_open @ ''{broken'' @ fence_close" "''{broken''" JNull]
    no_block_example bad_block_example bad_json_example
  by simp

text \<open>
  C9 as stated fails for a block that is valid JSON but not an array: the value is
  taken as the history, and the append throws.
\<close>

theorem C9_counterexample:
  "load_history (Some (fence_open @ ''null'' @ fence_close)) = JNull \<and>
   push_history (load_history (Some (fence_open @ ''null'' @ fence_close)))
     (json_of_day \<lparr>date = ''2024-01-02'', results = []\<rparr>) = Inl TypeError"
proof -
  have "load_history (Some ([] @ fence_open @ ''null'' @ fence_close @ []))
      = (case JSON_parse ''null'' of None \<Rightarrow> JArr [] | Some v \<Rightarrow> v)"
    by (intro load_history_report) (simp_all add: fence_open_def starts_with_def)
  also have "\<dots> = JNull"
    using parse_null [of "[]"] by (simp add: JSON_parse_def skip_ws_def)
  finally show ?thesis
    by (simp add: push_history_def)
qed

end
